theory Spec2Isabelle
  imports Complex_Main "HOL-Library.Multiset"
begin

section \<open>Configuration constants of \<^verbatim>\<open>main.py\<close>\<close>

text \<open>
  Strings are \<^typ>\<open>string\<close>; a character stands for a code point below 256, and
  names with code points beyond that are outside the model. All the characters of
  the patterns and of the configured paths are ASCII.
  \<^verbatim>\<open>EXCLUDE_FOLDERS\<close> is a Python set: it is only ever consumed by \<^verbatim>\<open>any(...)\<close>, whose
  result does not depend on the iteration order, so a list stands for it.
  \<^verbatim>\<open>DRY_RUN\<close> is a module constant (\<^verbatim>\<open>True\<close> in the source, to be edited for a live
  run); every function that reads it takes it as the argument \<open>dry_run\<close>.
\<close>

definition TARGET_FOLDER :: string where
  "TARGET_FOLDER = ''/$ JLR DATA MIGRATION/David''"

definition EXCLUDE_FOLDERS :: "string list" where
  "EXCLUDE_FOLDERS =
     [''/$ JLR DATA MIGRATION/Archive'',
      ''/$ JLR DATA MIGRATION/David/Archive'',
      ''/Archive'']"

definition MAX_RETRIES :: nat where
  "MAX_RETRIES = 5"

definition INITIAL_TIMEOUT :: rat where
  "INITIAL_TIMEOUT = 60"

text \<open>
  \<^verbatim>\<open>BACKOFF_FACTOR = 1.5\<close> and \<^verbatim>\<open>API_DELAY = 1.0\<close> are floats. Every product the program
  forms from them (\<open>60 * 1.5 ^ k\<close> for \<open>k \<le> 6\<close>, \<open>1.0 * 2 ^ k\<close> for \<open>k \<le> 3\<close>) is a dyadic
  rational with a short mantissa, so binary floating point computes it exactly and
  rational arithmetic gives the same numbers.
\<close>

definition BACKOFF_FACTOR :: rat where
  "BACKOFF_FACTOR = 3 / 2"

definition API_DELAY :: rat where
  "API_DELAY = 1"

definition BATCH_SIZE :: nat where
  "BATCH_SIZE = 100"

text \<open>The local \<^verbatim>\<open>MAX_RETRIES = 3\<close> of \<^verbatim>\<open>scan_target_folder\<close>, which shadows the module's.\<close>

definition SCAN_MAX_RETRIES :: nat where
  "SCAN_MAX_RETRIES = 3"

section \<open>Strings\<close>

definition newline :: char where
  "newline = CHR 0x0A"

text \<open>\<^verbatim>\<open>str.lower\<close> on the characters that matter here: the ASCII capitals.\<close>

definition lower_char :: "char \<Rightarrow> char" where
  "lower_char c =
     (case map_of (zip ''ABCDEFGHIJKLMNOPQRSTUVWXYZ'' ''abcdefghijklmnopqrstuvwxyz'') c of
        Some l \<Rightarrow> l
      | None \<Rightarrow> c)"

definition lower :: "string \<Rightarrow> string" where
  "lower s = map lower_char s"

definition startswith :: "string \<Rightarrow> string \<Rightarrow> bool" where
  "startswith s p = (take (length p) s = p)"

definition endswith :: "string \<Rightarrow> string \<Rightarrow> bool" where
  "endswith s p = (length p \<le> length s \<and> drop (length s - length p) s = p)"

section \<open>The regular expressions of \<^verbatim>\<open>is_target_file\<close>\<close>

text \<open>
  The three patterns use literals, the class \<^verbatim>\<open>[\s\-_]\<close>, the dot, a star on a single
  character set and the anchor \<^verbatim>\<open>$\<close>, all under \<^verbatim>\<open>re.IGNORECASE\<close>. A pattern is a list
  of items; \<open>accepts\<close> says which characters a character set matches:
  \<^item> a literal matches its own letter in either case;
  \<^item> \<^verbatim>\<open>\s\<close> matches the whitespace of a \<^verbatim>\<open>str\<close> pattern (for code points below 256:
    9 to 13, 28 to 32, 133 and 160);
  \<^item> the dot matches everything but a line feed (no \<^verbatim>\<open>re.DOTALL\<close>).
\<close>

datatype charset = Lit char | Whitespace | Dot | Class "charset list"

datatype item = One charset | Many charset | EndAnchor

definition whitespace :: "char list" where
  "whitespace =
     [CHR 0x09, CHR 0x0A, CHR 0x0B, CHR 0x0C, CHR 0x0D, CHR 0x1C, CHR 0x1D, CHR 0x1E,
      CHR 0x1F, CHR 0x20, CHR 0x85, CHR 0xA0]"

fun accepts :: "charset \<Rightarrow> char \<Rightarrow> bool" where
  "accepts (Lit l) c = (lower_char c = lower_char l)"
| "accepts Whitespace c = (c \<in> set whitespace)"
| "accepts Dot c = (c \<noteq> newline)"
| "accepts (Class cs) c = list_ex (\<lambda>s. accepts s c) cs"

text \<open>
  A match that starts at the head of the string. \<^verbatim>\<open>$\<close> (without \<^verbatim>\<open>re.MULTILINE\<close>)
  matches at the end of the string and just before a line feed that ends the string.
  A pattern that is used up has matched: \<^verbatim>\<open>search\<close> does not ask for the whole string.
\<close>

fun match_here :: "item list \<Rightarrow> string \<Rightarrow> bool" where
  "match_here [] s = True"
| "match_here (EndAnchor # r) s = ((s = [] \<or> s = [newline]) \<and> match_here r s)"
| "match_here (One cs # r) [] = False"
| "match_here (One cs # r) (c # s) = (accepts cs c \<and> match_here r s)"
| "match_here (Many cs # r) [] = match_here r []"
| "match_here (Many cs # r) (c # s) =
     (match_here r (c # s) \<or> (accepts cs c \<and> match_here (Many cs # r) s))"

text \<open>\<^verbatim>\<open>pattern.search(s)\<close>: a match that starts at some position of the string.\<close>

fun search :: "item list \<Rightarrow> string \<Rightarrow> bool" where
  "search p [] = match_here p []"
| "search p (c # s) = (match_here p (c # s) \<or> search p s)"

definition lits :: "string \<Rightarrow> item list" where
  "lits s = map (\<lambda>c. One (Lit c)) s"

definition separators :: item where
  "separators = Many (Class [Whitespace, Lit CHR ''-'', Lit CHR ''_''])"

text \<open>\<^verbatim>\<open>memo[\s\-_]*style\.pdf$\<close>, \<^verbatim>\<open>memostyle\.pdf$\<close> and \<^verbatim>\<open>memo[\s\-_]*style.*\.pdf$\<close>.\<close>

definition patterns :: "item list list" where
  "patterns =
     [lits ''memo'' @ [separators] @ lits ''style.pdf'' @ [EndAnchor],
      lits ''memostyle.pdf'' @ [EndAnchor],
      lits ''memo'' @ [separators] @ lits ''style'' @ [Many Dot] @ lits ''.pdf'' @ [EndAnchor]]"

definition is_target_file :: "string \<Rightarrow> bool" where
  "is_target_file filename = list_ex (\<lambda>pattern. search pattern filename) patterns"

section \<open>Exceptions, remote calls and the trace of a run\<close>

text \<open>
  The exception classes the handlers of the program tell apart:
  \<^verbatim>\<open>requests.exceptions.ReadTimeout\<close> and \<^verbatim>\<open>ConnectionError\<close> (both subclasses of
  \<^verbatim>\<open>RequestException\<close>), any other \<^verbatim>\<open>RequestException\<close>, \<^verbatim>\<open>dropbox.exceptions.ApiError\<close>,
  \<^verbatim>\<open>AuthError\<close> (not a subclass of \<^verbatim>\<open>ApiError\<close>) and any other \<^verbatim>\<open>Exception\<close>. An exception
  carries its message, so that two exceptions of one class can be told apart.
\<close>

datatype exn_class =
  ReadTimeout | ConnectionError | RequestException | ApiError | AuthError | OtherException

datatype exn = Exn exn_class string

fun exn_class_of :: "exn \<Rightarrow> exn_class" where
  "exn_class_of (Exn c m) = c"

text \<open>\<^verbatim>\<open>except (requests.exceptions.ReadTimeout, requests.exceptions.ConnectionError)\<close>\<close>

definition transient :: "exn \<Rightarrow> bool" where
  "transient e = (exn_class_of e = ReadTimeout \<or> exn_class_of e = ConnectionError)"

text \<open>\<^verbatim>\<open>except (ApiError, requests.exceptions.RequestException)\<close>\<close>

definition scan_retryable :: "exn \<Rightarrow> bool" where
  "scan_retryable e =
     (exn_class_of e = ApiError \<or> exn_class_of e = ReadTimeout \<or>
      exn_class_of e = ConnectionError \<or> exn_class_of e = RequestException)"

text \<open>\<^verbatim>\<open>except ApiError\<close>\<close>

definition is_api_error :: "exn \<Rightarrow> bool" where
  "is_api_error e = (exn_class_of e = ApiError)"

text \<open>\<^verbatim>\<open>except (requests.exceptions.ReadTimeout, dropbox.exceptions.ApiError)\<close>\<close>

definition folder_retryable :: "exn \<Rightarrow> bool" where
  "folder_retryable e = (exn_class_of e = ReadTimeout \<or> exn_class_of e = ApiError)"

text \<open>
  The entries of a listing, with the two fields the program reads. Every entry carries
  its \<^verbatim>\<open>path_lower\<close>: the SDK leaves it \<^verbatim>\<open>None\<close> for an item that is not mounted, and the
  program reads it as a \<^verbatim>\<open>str\<close> (\<^verbatim>\<open>entry.path_lower.startswith\<close>), so a listing with such an
  item is outside what is modelled here.
\<close>

datatype entry =
  FileMetadata (name: string) (path_lower: string)
| FolderMetadata (name: string) (path_lower: string)
| DeletedMetadata (name: string) (path_lower: string)

fun is_file :: "entry \<Rightarrow> bool" where
  "is_file (FileMetadata n p) = True"
| "is_file _ = False"

fun is_folder :: "entry \<Rightarrow> bool" where
  "is_folder (FolderMetadata n p) = True"
| "is_folder _ = False"

record list_result =
  entries :: "entry list"
  cursor :: string
  has_more :: bool

text \<open>
  The remote calls of the program (\<open>ListFolder path recursive\<close>), the messages it logs
  (one constructor per \<^verbatim>\<open>logger\<close> call of the source, with the values it formats) and
  the events of a run: a remote call with the exception it raised if any, a
  \<^verbatim>\<open>time.sleep\<close>, a log line. Console output (\<^verbatim>\<open>print\<close>) is not recorded.
\<close>

datatype call =
  ListFolder string bool
| ListFolderContinue string
| DeleteBatch "string list"
| DeleteV2 string
| Close

datatype log =
  TimeoutRetry nat rat
| MaxRetriesExceeded
| Scanned nat
| ScanRetry nat rat
| FatalScanError nat exn
| ScanCompleted nat
| ProcessedBatch nat
| BatchFailed exn
| CheckFailed string exn
| WouldDelete string
| DeletedFolder string
| FolderRetry nat string
| PermanentlyFailed string
| Started
| FatalError exn
| Completed

datatype event = Called call "exn option" | Sleep rat | Log log

text \<open>
  The Dropbox client is not part of the repository. It is a parameter: each of its
  methods answers as a function of everything that has happened in the run so far
  (the trace) and of its arguments, which covers every deterministic remote.
\<close>

record dropbox =
  files_list_folder :: "event list \<Rightarrow> string \<Rightarrow> bool \<Rightarrow> exn + list_result"
  files_list_folder_continue :: "event list \<Rightarrow> string \<Rightarrow> exn + list_result"
  files_delete_batch :: "event list \<Rightarrow> string list \<Rightarrow> exn + unit"
  files_delete_v2 :: "event list \<Rightarrow> string \<Rightarrow> exn + unit"

text \<open>A call with its arguments bound, and its invocation, which extends the trace.\<close>

type_synonym 'a func = "call \<times> (event list \<Rightarrow> exn + 'a)"

fun failure :: "exn + 'a \<Rightarrow> exn option" where
  "failure (Inl e) = Some e"
| "failure (Inr v) = None"

fun invoke :: "'a func \<Rightarrow> event list \<Rightarrow> (exn + 'a) \<times> event list" where
  "invoke (c, op) h = (op h, h @ [Called c (failure (op h))])"

section \<open>\<^verbatim>\<open>robust_api_call\<close>\<close>

text \<open>
  \<^verbatim>\<open>for attempt in range(MAX_RETRIES + 1)\<close> is the recursion over the list of attempts.
  After the loop the source raises \<^verbatim>\<open>last_error\<close>; raising \<^verbatim>\<open>None\<close> is a \<^verbatim>\<open>TypeError\<close>.
\<close>

fun raise_last :: "exn option \<Rightarrow> exn" where
  "raise_last (Some e) = e"
| "raise_last None = Exn OtherException ''TypeError''"

fun retry_loop ::
  "'a func \<Rightarrow> nat list \<Rightarrow> rat \<Rightarrow> exn option \<Rightarrow> event list \<Rightarrow> (exn + 'a) \<times> event list"
where
  "retry_loop func [] current_timeout last_error h =
     (Inl (raise_last last_error), h @ [Log MaxRetriesExceeded])"
| "retry_loop func (attempt # rest) current_timeout last_error h =
     (case invoke func h of
        (Inr v, h1) \<Rightarrow> (Inr v, h1)
      | (Inl e, h1) \<Rightarrow>
          if transient e then
            (if attempt < MAX_RETRIES then
               (let wait_time = current_timeout * BACKOFF_FACTOR in
                retry_loop func rest (current_timeout * BACKOFF_FACTOR) (Some e)
                  (h1 @ [Log (TimeoutRetry (attempt + 1) wait_time), Sleep wait_time]))
             else retry_loop func rest current_timeout (Some e) h1)
          else (Inl e, h1))"

definition robust_api_call :: "'a func \<Rightarrow> event list \<Rightarrow> (exn + 'a) \<times> event list" where
  "robust_api_call func h = retry_loop func [0..<MAX_RETRIES + 1] INITIAL_TIMEOUT None h"

section \<open>\<^verbatim>\<open>scan_target_folder\<close>\<close>

record scan_results =
  target_files :: "string list"
  other_files :: "string list"
  failed_folders :: "string list"

record scan_state =
  st_results :: scan_results
  st_cursor :: "string option"
  processed_entries :: nat
  retry_count :: nat

text \<open>The body of \<^verbatim>\<open>for entry in response.entries\<close>.\<close>

definition process_entry ::
  "entry \<Rightarrow> scan_results \<times> nat \<times> event list \<Rightarrow> scan_results \<times> nat \<times> event list"
where
  "process_entry entry acc =
     (case acc of (res, processed, h) \<Rightarrow>
        (let processed1 = processed + 1;
             h1 = (if processed1 mod 500 = 0 then h @ [Log (Scanned processed1)] else h)
         in if is_folder entry \<and>
               list_ex (\<lambda>excl. startswith (path_lower entry) (lower excl)) EXCLUDE_FOLDERS
            then (res, processed1, h1)
            else if is_file entry \<and> is_target_file (name entry)
            then (res\<lparr>target_files := target_files res @ [path_lower entry]\<rparr>, processed1, h1)
            else (res, processed1, h1)))"

fun process_entries ::
  "entry list \<Rightarrow> scan_results \<times> nat \<times> event list \<Rightarrow> scan_results \<times> nat \<times> event list"
where
  "process_entries [] acc = acc"
| "process_entries (entry # rest) acc = process_entries rest (process_entry entry acc)"

text \<open>
  The page request: \<^verbatim>\<open>files_list_folder(TARGET_FOLDER, recursive=True, ...)\<close> when the
  cursor is \<^verbatim>\<open>None\<close>, \<^verbatim>\<open>files_list_folder_continue(cursor)\<close> otherwise.
\<close>

fun page_request :: "dropbox \<Rightarrow> string option \<Rightarrow> list_result func" where
  "page_request dbx None =
     (ListFolder TARGET_FOLDER True, \<lambda>h. files_list_folder dbx h TARGET_FOLDER True)"
| "page_request dbx (Some c) =
     (ListFolderContinue c, \<lambda>h. files_list_folder_continue dbx h c)"

text \<open>
  \<^verbatim>\<open>while True\<close> may run for ever (a remote that always says \<^verbatim>\<open>has_more\<close>), so the loop
  takes the number of iterations it may still make and answers \<open>Running\<close> when they are
  used up. The only statements of the inner \<^verbatim>\<open>try\<close> that raise are the two remote
  calls: handling an entry raises nothing.
\<close>

datatype outcome = Finished | Raised exn | Running

fun scan_loop ::
  "dropbox \<Rightarrow> nat \<Rightarrow> scan_state \<Rightarrow> event list \<Rightarrow> outcome \<times> scan_state \<times> event list"
where
  "scan_loop dbx 0 s h = (Running, s, h)"
| "scan_loop dbx (Suc fuel) s h =
     (case robust_api_call (page_request dbx (st_cursor s)) h of
        (Inr response, h1) \<Rightarrow>
          (case process_entries (entries response) (st_results s, processed_entries s, h1) of
             (res, processed, h2) \<Rightarrow>
               (let s1 = s\<lparr>st_results := res, processed_entries := processed\<rparr>
                in if \<not> has_more response then (Finished, s1, h2)
                   else scan_loop dbx fuel
                          (s1\<lparr>st_cursor := Some (cursor response), retry_count := 0\<rparr>)
                          (h2 @ [Sleep API_DELAY])))
      | (Inl e, h1) \<Rightarrow>
          if scan_retryable e \<and> retry_count s < SCAN_MAX_RETRIES then
            (let rc = retry_count s + 1;
                 wait_time = API_DELAY * 2 ^ rc
             in scan_loop dbx fuel (s\<lparr>retry_count := rc\<rparr>)
                  (h1 @ [Log (ScanRetry rc wait_time), Sleep wait_time]))
          else (Raised e, s, h1))"

text \<open>\<^verbatim>\<open>cursor or TARGET_FOLDER\<close>: an empty cursor is falsy too.\<close>

fun cursor_or_target :: "string option \<Rightarrow> string" where
  "cursor_or_target None = TARGET_FOLDER"
| "cursor_or_target (Some c) = (if c = [] then TARGET_FOLDER else c)"

text \<open>
  The outer \<^verbatim>\<open>try\<close> with its \<^verbatim>\<open>except Exception\<close>. The result is \<open>None\<close> while the loop is
  still running, \<open>Some (Inl e)\<close> when the scan raises \<open>e\<close>, \<open>Some (Inr results)\<close> when it
  returns.
\<close>

definition scan_finish ::
  "outcome \<times> scan_state \<times> event list \<Rightarrow> (exn + scan_results) option \<times> event list"
where
  "scan_finish r =
     (case r of
        (Running, s, h) \<Rightarrow> (None, h)
      | (Finished, s, h) \<Rightarrow>
          (Some (Inr (st_results s)), h @ [Log (ScanCompleted (processed_entries s))])
      | (Raised e, s, h) \<Rightarrow>
          (let h1 = h @ [Log (FatalScanError (processed_entries s) e)];
               res = (st_results s)
                       \<lparr>failed_folders :=
                          failed_folders (st_results s) @ [cursor_or_target (st_cursor s)]\<rparr>
           in if target_files res = [] then (Some (Inl e), h1)
              else (Some (Inr res), h1 @ [Log (ScanCompleted (processed_entries s))])))"

definition scan_init :: scan_state where
  "scan_init =
     \<lparr>st_results = \<lparr>target_files = [], other_files = [], failed_folders = []\<rparr>,
      st_cursor = None, processed_entries = 0, retry_count = 0\<rparr>"

definition scan_target_folder ::
  "dropbox \<Rightarrow> nat \<Rightarrow> event list \<Rightarrow> (exn + scan_results) option \<times> event list"
where
  "scan_target_folder dbx fuel h = scan_finish (scan_loop dbx fuel scan_init h)"

section \<open>\<^verbatim>\<open>turbo_delete_files\<close>\<close>

text \<open>
  The closure \<^verbatim>\<open>delete_batch\<close>: \<open>Inr None\<close> is the \<^verbatim>\<open>return None\<close> of a batch that went
  through, \<open>Inr (Some batch)\<close> the \<^verbatim>\<open>return batch\<close> of the \<^verbatim>\<open>except ApiError\<close>, and \<open>Inl e\<close>
  an exception of any other class, which the closure does not catch.
\<close>

definition delete_batch ::
  "dropbox \<Rightarrow> bool \<Rightarrow> string list \<Rightarrow> event list \<Rightarrow> (exn + string list option) \<times> event list"
where
  "delete_batch dbx dry_run batch h =
     (let h1 = h @ [Sleep API_DELAY] in
      if dry_run then (Inr None, h1 @ [Log (ProcessedBatch (length batch))])
      else
        (case invoke (DeleteBatch batch, \<lambda>h. files_delete_batch dbx h batch) h1 of
           (Inr u, h2) \<Rightarrow> (Inr None, h2 @ [Log (ProcessedBatch (length batch))])
         | (Inl e, h2) \<Rightarrow>
             if is_api_error e then (Inr (Some batch), h2 @ [Log (BatchFailed e)])
             else (Inl e, h2)))"

text \<open>\<^verbatim>\<open>range(0, stop, step)\<close> and the slice \<^verbatim>\<open>xs[i:j]\<close> for \<open>i \<le> j\<close>.\<close>

definition range_step :: "nat \<Rightarrow> nat \<Rightarrow> nat list" where
  "range_step stop step = map (\<lambda>k. k * step) [0..<(stop + step - 1) div step]"

definition slice :: "'a list \<Rightarrow> nat \<Rightarrow> nat \<Rightarrow> 'a list" where
  "slice xs i j = take (j - i) (drop i xs)"

definition batches_of :: "string list \<Rightarrow> string list list" where
  "batches_of file_paths =
     map (\<lambda>i. slice file_paths i (i + BATCH_SIZE))
       (range_step (length file_paths) BATCH_SIZE)"

text \<open>
  \<^verbatim>\<open>executor.map(delete_batch, batches)\<close> submits every batch to the pool, whose
  workers take them in the order of submission, and yields the results in that
  order; iterating over the results re-raises the first exception a worker raised,
  and the batches the pool has not started by then are cancelled, while those it has
  started run to their end. \<open>started\<close> is the number of batches the pool has started
  at that moment, which depends on timing and is a parameter: once a batch has
  raised, the batches after it run as long as their index is below \<open>started\<close>.
  \<open>executor_map f started raised i xs h\<close> handles the batches \<open>xs\<close>, the first of which
  has index \<open>i\<close>; \<open>raised\<close> says whether an earlier batch has raised.

  The four workers run concurrently, and the events of two batches may interleave
  in any way. The model runs the batches one after the other, in the order of
  submission: one of the schedules of the pool. For every run of the program there
  is a remote on which this schedule meets the same outcome for each batch, with
  the same events in another order; so the statements below about the events of
  \<^verbatim>\<open>turbo_delete_files\<close> count events or compare multisets of events, and none relies
  on their order.
\<close>

fun executor_map ::
  "('a \<Rightarrow> event list \<Rightarrow> (exn + 'b) \<times> event list) \<Rightarrow> nat \<Rightarrow> bool \<Rightarrow> nat \<Rightarrow> 'a list
     \<Rightarrow> event list \<Rightarrow> (exn + 'b) list \<times> event list"
where
  "executor_map f started raised i [] h = ([], h)"
| "executor_map f started raised i (x # xs) h =
     (if raised \<and> started \<le> i then ([], h)
      else
        (case f x h of (r, h1) \<Rightarrow>
           (case executor_map f started (raised \<or> isl r) (Suc i) xs h1 of
              (rs, h2) \<Rightarrow> (r # rs, h2))))"

fun collect :: "(exn + 'b) list \<Rightarrow> exn + 'b list" where
  "collect [] = Inr []"
| "collect (Inl e # rs) = Inl e"
| "collect (Inr v # rs) = (case collect rs of Inl e \<Rightarrow> Inl e | Inr vs \<Rightarrow> Inr (v # vs))"

text \<open>\<^verbatim>\<open>filter(None, ...)\<close> keeps the truthy results: the non-empty lists.\<close>

fun filter_none :: "string list option list \<Rightarrow> string list list" where
  "filter_none [] = []"
| "filter_none (None # vs) = filter_none vs"
| "filter_none (Some b # vs) = (if b = [] then filter_none vs else b # filter_none vs)"

text \<open>\<^verbatim>\<open>for batch in failed_batches: time.sleep(API_DELAY * 2); delete_batch(batch)\<close>\<close>

fun retry_failed ::
  "dropbox \<Rightarrow> bool \<Rightarrow> string list list \<Rightarrow> event list \<Rightarrow> (exn + unit) \<times> event list"
where
  "retry_failed dbx dry_run [] h = (Inr (), h)"
| "retry_failed dbx dry_run (batch # rest) h =
     (case delete_batch dbx dry_run batch (h @ [Sleep (API_DELAY * 2)]) of
        (Inl e, h1) \<Rightarrow> (Inl e, h1)
      | (Inr r, h1) \<Rightarrow> retry_failed dbx dry_run rest h1)"

definition turbo_delete_files ::
  "dropbox \<Rightarrow> bool \<Rightarrow> nat \<Rightarrow> string list \<Rightarrow> event list \<Rightarrow> (exn + unit) \<times> event list"
where
  "turbo_delete_files dbx dry_run started file_paths h =
     (case executor_map (delete_batch dbx dry_run) started False 0 (batches_of file_paths) h of
        (rs, h1) \<Rightarrow>
          (case collect rs of
             Inl e \<Rightarrow> (Inl e, h1)
           | Inr vs \<Rightarrow> retry_failed dbx dry_run (filter_none vs) h1))"

section \<open>\<^verbatim>\<open>clean_empty_folders\<close>\<close>

text \<open>The closure \<^verbatim>\<open>should_delete\<close>; its \<^verbatim>\<open>except Exception\<close> catches every class.\<close>

definition should_delete :: "dropbox \<Rightarrow> string \<Rightarrow> event list \<Rightarrow> bool \<times> event list" where
  "should_delete dbx folder_path h =
     (case invoke (ListFolder folder_path False,
                   \<lambda>h. files_list_folder dbx h folder_path False) h of
        (Inr response, h1) \<Rightarrow>
          (list_all (\<lambda>entry. is_target_file (name entry)) (filter is_file (entries response)),
           h1)
      | (Inl e, h1) \<Rightarrow> (False, h1 @ [Log (CheckFailed folder_path e)]))"

text \<open>
  \<^verbatim>\<open>os.path.dirname\<close> of \<^verbatim>\<open>posixpath\<close>: the head is the path up to its last slash, and
  its trailing slashes are stripped unless it consists of slashes only.
\<close>

definition rstrip_slash :: "string \<Rightarrow> string" where
  "rstrip_slash s = take (length s - length (takeWhile (\<lambda>c. c = CHR ''/'') (rev s))) s"

definition dirname :: "string \<Rightarrow> string" where
  "dirname p =
     (let i = length p - length (takeWhile (\<lambda>c. c \<noteq> CHR ''/'') (rev p));
          head = take i p
      in if head \<noteq> [] \<and> head \<noteq> replicate (length head) CHR ''/'' then rstrip_slash head
         else head)"

lemma dirname_shorter: "dirname p \<noteq> p \<Longrightarrow> length (dirname p) < length p"
proof -
  define i where "i = length p - length (takeWhile (\<lambda>c. c \<noteq> CHR ''/'') (rev p))"
  define j where
    "j = length (take i p) - length (takeWhile (\<lambda>c. c = CHR ''/'') (rev (take i p)))"
  have "dirname p = take i p \<or> dirname p = take j (take i p)"
    unfolding dirname_def rstrip_slash_def Let_def i_def j_def by simp
  then have "dirname p = take i p \<or> dirname p = take (min j i) p"
    by (simp only: take_take)
  then obtain k where k: "dirname p = take k p" by blast
  assume "dirname p \<noteq> p"
  with k have "k < length p" by (cases "k < length p") auto
  with k show ?thesis by simp
qed

text \<open>
  \<^verbatim>\<open>folders_to_check\<close> is a Python set: its content is kept here as a list without
  repetitions (in the order of first insertion, which plays no role: see
  \<open>set_iteration\<close> below). The inner \<^verbatim>\<open>while len(folder) > len(TARGET_FOLDER)\<close> loop
  has \<open>folder\<close> as its only changing state besides the set, so it runs for ever exactly
  when \<^verbatim>\<open>dirname\<close> leaves a folder longer than the root unchanged (a run of slashes):
  the result is \<open>None\<close> then.
\<close>

definition add_folder :: "string \<Rightarrow> string list \<Rightarrow> string list" where
  "add_folder x xs = (if x \<in> set xs then xs else xs @ [x])"

function ancestors_loop :: "string \<Rightarrow> string list \<Rightarrow> string list option" where
  "ancestors_loop folder acc =
     (if length folder > length TARGET_FOLDER then
        (if dirname folder = folder then None
         else ancestors_loop (dirname folder) (add_folder folder acc))
      else Some acc)"
  by pat_completeness auto
termination
  by (relation "measure (\<lambda>(folder, acc). length folder)") (auto simp: dirname_shorter)

fun folders_to_check :: "string list \<Rightarrow> string list \<Rightarrow> string list option" where
  "folders_to_check [] acc = Some acc"
| "folders_to_check (file_path # rest) acc =
     (case ancestors_loop (dirname file_path) acc of
        None \<Rightarrow> None
      | Some acc1 \<Rightarrow> folders_to_check rest acc1)"

text \<open>
  A Python set of strings is iterated in an order that the hashes of its elements
  fix, which the language leaves open and which changes from one process to the
  next. The parameter \<open>rank\<close> stands for it: the set is iterated by increasing
  rank. Every order of iteration is that of some rank, and every rank gives a
  permutation of the set.
\<close>

definition set_iteration :: "(string \<Rightarrow> nat) \<Rightarrow> string list \<Rightarrow> string list" where
  "set_iteration rank elements = sort_key rank elements"

text \<open>
  \<^verbatim>\<open>sorted(folders_to_check, key=lambda x: -len(x.split('/')))\<close>: \<^verbatim>\<open>sorted\<close> is stable, as
  \<open>sort_key\<close> is, so folders of equal depth keep the order of the iteration over the
  set; \<^verbatim>\<open>x.split('/')\<close> has one part more than \<open>x\<close> has slashes.
\<close>

definition split_len :: "string \<Rightarrow> nat" where
  "split_len x = Suc (length (filter (\<lambda>c. c = CHR ''/'') x))"

definition deepest_first :: "string list \<Rightarrow> string list" where
  "deepest_first folders = sort_key (\<lambda>x. - int (split_len x)) folders"

text \<open>
  The body of the \<^verbatim>\<open>try\<close> for one folder. \<open>Inr ()\<close> reaches the \<^verbatim>\<open>break\<close>; the only
  statement that can raise is \<^verbatim>\<open>dbx.files_delete_v2(folder)\<close>.
\<close>

definition try_folder ::
  "dropbox \<Rightarrow> bool \<Rightarrow> string \<Rightarrow> event list \<Rightarrow> (exn + unit) \<times> event list"
where
  "try_folder dbx dry_run folder h =
     (if \<not> list_ex (\<lambda>excl. startswith folder excl) EXCLUDE_FOLDERS then
        (case should_delete dbx folder h of
           (True, h1) \<Rightarrow>
             if dry_run then (Inr (), h1 @ [Log (WouldDelete folder)])
             else
               (case invoke (DeleteV2 folder, \<lambda>h. files_delete_v2 dbx h folder) h1 of
                  (Inr u, h2) \<Rightarrow> (Inr (), h2 @ [Log (DeletedFolder folder)])
                | (Inl e, h2) \<Rightarrow> (Inl e, h2))
         | (False, h1) \<Rightarrow> (Inr (), h1))
      else (Inr (), h))"

text \<open>
  \<^verbatim>\<open>while retry_count < MAX_RETRIES\<close> for one folder (\<^verbatim>\<open>MAX_RETRIES\<close> is the module's, 5).
  An exception that is neither a \<^verbatim>\<open>ReadTimeout\<close> nor an \<^verbatim>\<open>ApiError\<close> leaves
  \<^verbatim>\<open>clean_empty_folders\<close>.
\<close>

function folder_loop ::
  "dropbox \<Rightarrow> bool \<Rightarrow> string \<Rightarrow> nat \<Rightarrow> event list \<Rightarrow> (exn + unit) \<times> event list"
where
  "folder_loop dbx dry_run folder retries h =
     (if retries < MAX_RETRIES then
        (case try_folder dbx dry_run folder h of
           (Inr u, h1) \<Rightarrow> (Inr (), h1)
         | (Inl e, h1) \<Rightarrow>
             if folder_retryable e then
               (let rc = retries + 1;
                    wait = min 30 (2 ^ rc);
                    h2 = h1 @ [Log (FolderRetry rc folder), Sleep wait];
                    h3 = (if rc = MAX_RETRIES then h2 @ [Log (PermanentlyFailed folder)]
                          else h2)
                in folder_loop dbx dry_run folder rc h3)
             else (Inl e, h1))
      else (Inr (), h))"
  by pat_completeness auto
termination
  by (relation "measure (\<lambda>(dbx, dry_run, folder, retries, h). MAX_RETRIES - retries)") auto

fun process_folders ::
  "dropbox \<Rightarrow> bool \<Rightarrow> string list \<Rightarrow> event list \<Rightarrow> (exn + unit) \<times> event list"
where
  "process_folders dbx dry_run [] h = (Inr (), h)"
| "process_folders dbx dry_run (folder # rest) h =
     (case folder_loop dbx dry_run folder 0 h of
        (Inl e, h1) \<Rightarrow> (Inl e, h1)
      | (Inr u, h1) \<Rightarrow> process_folders dbx dry_run rest h1)"

text \<open>\<open>None\<close>: the function does not return (the walk up from a target path never ends).\<close>

definition clean_empty_folders ::
  "dropbox \<Rightarrow> bool \<Rightarrow> (string \<Rightarrow> nat) \<Rightarrow> string list \<Rightarrow> event list
     \<Rightarrow> ((exn + unit) \<times> event list) option"
where
  "clean_empty_folders dbx dry_run rank target_paths h =
     (case folders_to_check target_paths [] of
        None \<Rightarrow> None
      | Some folders \<Rightarrow>
          Some (process_folders dbx dry_run (deepest_first (set_iteration rank folders)) h))"

section \<open>\<^verbatim>\<open>main\<close>\<close>

text \<open>
  The answers typed at the two \<^verbatim>\<open>input\<close> prompts are a list; \<^verbatim>\<open>input\<close> with nothing left
  to read raises \<^verbatim>\<open>EOFError\<close>. \<^verbatim>\<open>not DRY_RUN and input(...)\<close> reads nothing in a dry run.
\<close>

definition read_input :: "string list \<Rightarrow> (exn + string) \<times> string list" where
  "read_input inputs =
     (case inputs of
        [] \<Rightarrow> (Inl (Exn OtherException ''EOFError''), [])
      | answer # rest \<Rightarrow> (Inr answer, rest))"

text \<open>\<^verbatim>\<open>if not DRY_RUN and input(...).lower() != 'y'\<close>: \<open>Inr True\<close> means cancelled.\<close>

definition cancelled :: "bool \<Rightarrow> string list \<Rightarrow> (exn + bool) \<times> string list" where
  "cancelled dry_run inputs =
     (if dry_run then (Inr False, inputs)
      else (case read_input inputs of
              (Inl e, rest) \<Rightarrow> (Inl e, rest)
            | (Inr answer, rest) \<Rightarrow> (Inr (lower answer \<noteq> ''y''), rest)))"

text \<open>\<^verbatim>\<open>if not DRY_RUN and input(...).lower() == 'y'\<close>\<close>

definition wants_cleanup :: "bool \<Rightarrow> string list \<Rightarrow> (exn + bool) \<times> string list" where
  "wants_cleanup dry_run inputs =
     (if dry_run then (Inr False, inputs)
      else (case read_input inputs of
              (Inl e, rest) \<Rightarrow> (Inl e, rest)
            | (Inr answer, rest) \<Rightarrow> (Inr (lower answer = ''y''), rest)))"

text \<open>
  The \<^verbatim>\<open>try\<close> block of \<^verbatim>\<open>main\<close>. It ends with a \<^verbatim>\<open>return\<close>, with the \<^verbatim>\<open>break\<close>, with an
  exception, or not at all (\<open>None\<close>). \<open>pool\<close> gives, for the trace at which the deletion
  starts, the number of batches the pool gets to start if one of them raises, and
  \<open>rank\<close> is the order of iteration over sets in this process.
\<close>

datatype control = Return | Break

definition main_try ::
  "dropbox \<Rightarrow> bool \<Rightarrow> nat \<Rightarrow> (event list \<Rightarrow> nat) \<Rightarrow> (string \<Rightarrow> nat) \<Rightarrow> string list \<Rightarrow> event list
     \<Rightarrow> (exn + control) option \<times> string list \<times> event list"
where
  "main_try dbx dry_run fuel pool rank inputs h =
     (case scan_target_folder dbx fuel h of
        (None, h1) \<Rightarrow> (None, inputs, h1)
      | (Some (Inl e), h1) \<Rightarrow> (Some (Inl e), inputs, h1)
      | (Some (Inr scan_results), h1) \<Rightarrow>
          if target_files scan_results = [] then (Some (Inr Return), inputs, h1)
          else
            (case cancelled dry_run inputs of
               (Inl e, inputs1) \<Rightarrow> (Some (Inl e), inputs1, h1)
             | (Inr True, inputs1) \<Rightarrow> (Some (Inr Return), inputs1, h1)
             | (Inr False, inputs1) \<Rightarrow>
                 (case turbo_delete_files dbx dry_run (pool h1)
                         (target_files scan_results) h1 of
                    (Inl e, h2) \<Rightarrow> (Some (Inl e), inputs1, h2)
                  | (Inr u, h2) \<Rightarrow>
                      (case wants_cleanup dry_run inputs1 of
                         (Inl e, inputs2) \<Rightarrow> (Some (Inl e), inputs2, h2)
                       | (Inr False, inputs2) \<Rightarrow> (Some (Inr Break), inputs2, h2)
                       | (Inr True, inputs2) \<Rightarrow>
                           (case clean_empty_folders dbx dry_run rank
                                   (target_files scan_results) h2 of
                              None \<Rightarrow> (None, inputs2, h2)
                            | Some (Inl e, h3) \<Rightarrow> (Some (Inl e), inputs2, h3)
                            | Some (Inr u, h3) \<Rightarrow> (Some (Inr Break), inputs2, h3))))))"

text \<open>The \<^verbatim>\<open>finally\<close> clause: \<^verbatim>\<open>dbx.close()\<close> and the log of the elapsed time.\<close>

definition finally_clause :: "event list \<Rightarrow> event list" where
  "finally_clause h = h @ [Called Close None, Log Completed]"

text \<open>
  \<^verbatim>\<open>while retry_main < 3\<close>. The result says whether the run has ended, with its trace.
  The fuel bounds the iterations of each scan.
\<close>

function main_loop ::
  "dropbox \<Rightarrow> bool \<Rightarrow> nat \<Rightarrow> (event list \<Rightarrow> nat) \<Rightarrow> (string \<Rightarrow> nat) \<Rightarrow> nat \<Rightarrow> string list
     \<Rightarrow> event list \<Rightarrow> bool \<times> event list"
where
  "main_loop dbx dry_run fuel pool rank retry_main inputs h =
     (if retry_main < 3 then
        (case main_try dbx dry_run fuel pool rank inputs h of
           (None, inputs1, h1) \<Rightarrow> (False, h1)
         | (Some (Inr c), inputs1, h1) \<Rightarrow> (True, finally_clause h1)
         | (Some (Inl e), inputs1, h1) \<Rightarrow>
             if exn_class_of e = ReadTimeout then
               main_loop dbx dry_run fuel pool rank (retry_main + 1) inputs1
                 (finally_clause (h1 @ [Sleep (10 * of_nat (retry_main + 1))]))
             else (True, finally_clause (h1 @ [Log (FatalError e)])))
      else (True, h))"
  by pat_completeness auto
termination
  by (relation
        "measure (\<lambda>(dbx, dry_run, fuel, pool, rank, retry_main, inputs, h). 3 - retry_main)")
     auto

definition main ::
  "dropbox \<Rightarrow> bool \<Rightarrow> nat \<Rightarrow> (event list \<Rightarrow> nat) \<Rightarrow> (string \<Rightarrow> nat) \<Rightarrow> string list
     \<Rightarrow> bool \<times> event list"
where
  "main dbx dry_run fuel pool rank inputs =
     main_loop dbx dry_run fuel pool rank 0 inputs [Log Started]"

section \<open>The pattern as the specification words it\<close>

text \<open>
  Modelled from the specification, for comparison with \<open>is_target_file\<close>: a name is a
  target when, case-insensitively, it ends with \<^verbatim>\<open>memostyle.pdf\<close>, or with \<^verbatim>\<open>memo\<close>, a
  run of spaces, hyphens and underscores and \<^verbatim>\<open>style.pdf\<close>, or with \<^verbatim>\<open>memo\<close>, such a run,
  \<^verbatim>\<open>style\<close>, arbitrary characters and \<^verbatim>\<open>.pdf\<close>.
\<close>

definition spec_separator :: "char \<Rightarrow> bool" where
  "spec_separator c = (c = CHR '' '' \<or> c = CHR ''-'' \<or> c = CHR ''_'')"

definition spec_form :: "string \<Rightarrow> bool" where
  "spec_form x =
     (x = ''memostyle.pdf'' \<or>
      (startswith x ''memo'' \<and>
       (let rest = dropWhile spec_separator (drop 4 x)
        in rest = ''style.pdf'' \<or> (startswith rest ''style'' \<and> endswith (drop 5 rest) ''.pdf''))))"

fun suffixes_of :: "string \<Rightarrow> string list" where
  "suffixes_of [] = [[]]"
| "suffixes_of (c # s) = (c # s) # suffixes_of s"

definition spec_isTarget :: "string \<Rightarrow> bool" where
  "spec_isTarget n = list_ex spec_form (suffixes_of (lower n))"

section \<open>The names \<open>is_target_file\<close> accepts\<close>

text \<open>
  \<open>memo_style t\<close>: \<open>t\<close> is \<^verbatim>\<open>memo\<close>, a run of whitespace, hyphens and underscores,
  \<^verbatim>\<open>style\<close>, any characters but line feeds, \<^verbatim>\<open>.pdf\<close> (letters in either case) and
  possibly one final line feed.
\<close>

definition sep_char :: "char \<Rightarrow> bool" where
  "sep_char c = (c \<in> set whitespace \<or> c = CHR ''-'' \<or> c = CHR ''_'')"

definition memo_style :: "string \<Rightarrow> bool" where
  "memo_style t =
     (\<exists>m sep st mid pd nl. t = m @ sep @ st @ mid @ pd @ nl \<and> lower m = ''memo'' \<and>
        list_all sep_char sep \<and> lower st = ''style'' \<and> newline \<notin> set mid \<and>
        lower pd = ''.pdf'' \<and> (nl = [] \<or> nl = [newline]))"

section \<open>Trace shapes used in the statements\<close>

text \<open>
  The wait before the \<open>k\<close>-th retry as the specification gives it, and the events of
  a run of retries: the \<open>k\<close>-th retry follows a failed invocation, a warning and a
  sleep of \<open>backoff_wait k\<close>. \<open>retry_run func h a errs r\<close> describes a run of the retry
  loop that starts at attempt \<open>a\<close> with trace \<open>h\<close>, meets the errors \<open>errs\<close> on which it
  retries, and ends with \<open>r\<close>.
\<close>

definition backoff_wait :: "nat \<Rightarrow> rat" where
  "backoff_wait k = INITIAL_TIMEOUT * BACKOFF_FACTOR ^ k"

fun retry_events :: "call \<Rightarrow> nat \<Rightarrow> exn list \<Rightarrow> event list" where
  "retry_events c k [] = []"
| "retry_events c k (e # es) =
     [Called c (Some e), Log (TimeoutRetry k (backoff_wait k)), Sleep (backoff_wait k)]
       @ retry_events c (Suc k) es"

definition retry_run ::
  "'a func \<Rightarrow> event list \<Rightarrow> nat \<Rightarrow> exn list \<Rightarrow> (exn + 'a) \<times> event list \<Rightarrow> bool"
where
  "retry_run func h a errs r =
     (a + length errs \<le> MAX_RETRIES \<and> list_all transient errs \<and>
      (let h1 = h @ retry_events (fst func) (Suc a) errs in
       (\<exists>v. snd func h1 = Inr v \<and> r = (Inr v, h1 @ [Called (fst func) None])) \<or>
       (\<exists>e. snd func h1 = Inl e \<and> \<not> transient e \<and>
            r = (Inl e, h1 @ [Called (fst func) (Some e)])) \<or>
       (\<exists>e. snd func h1 = Inl e \<and> transient e \<and> a + length errs = MAX_RETRIES \<and>
            r = (Inl e, h1 @ [Called (fst func) (Some e), Log MaxRetriesExceeded]))))"

text \<open>
  The events of one attempt at a batch in a live run, by its outcome (\<open>None\<close>: the
  call returned; \<open>Some e\<close>: it raised the \<^verbatim>\<open>ApiError\<close> \<open>e\<close>), and of a serial retry, which
  sleeps \<^verbatim>\<open>API_DELAY * 2\<close> first; the value \<^verbatim>\<open>delete_batch\<close> returns; the batches whose
  first attempt failed; and two readings of a trace: the errors of its failed batch
  deletions and the paths of its successful ones.
\<close>

fun attempt_events :: "string list \<Rightarrow> exn option \<Rightarrow> event list" where
  "attempt_events batch None =
     [Sleep API_DELAY, Called (DeleteBatch batch) None, Log (ProcessedBatch (length batch))]"
| "attempt_events batch (Some e) =
     [Sleep API_DELAY, Called (DeleteBatch batch) (Some e), Log (BatchFailed e)]"

definition retry_attempt_events :: "string list \<Rightarrow> exn option \<Rightarrow> event list" where
  "retry_attempt_events batch out = Sleep (API_DELAY * 2) # attempt_events batch out"

fun failed_batches :: "string list list \<Rightarrow> exn option list \<Rightarrow> string list list" where
  "failed_batches (b # bs) (None # outs) = failed_batches bs outs"
| "failed_batches (b # bs) (Some e # outs) = b # failed_batches bs outs"
| "failed_batches bs outs = []"

fun batch_failures :: "event list \<Rightarrow> exn list" where
  "batch_failures [] = []"
| "batch_failures (Called (DeleteBatch b) (Some e) # tr) = e # batch_failures tr"
| "batch_failures (ev # tr) = batch_failures tr"

fun deleted_paths :: "event list \<Rightarrow> string list" where
  "deleted_paths [] = []"
| "deleted_paths (Called (DeleteBatch b) None # tr) = b @ deleted_paths tr"
| "deleted_paths (ev # tr) = deleted_paths tr"

text \<open>
  \<open>batch_calls tr\<close> lists the batches for which \<open>tr\<close> holds a call of
  \<^verbatim>\<open>files_delete_batch\<close>, one entry for each call; \<open>returned rs\<close> lists the batches that
  the results \<open>rs\<close> of \<^verbatim>\<open>delete_batch\<close> hand back as failed.
\<close>

fun batch_calls :: "event list \<Rightarrow> string list list" where
  "batch_calls [] = []"
| "batch_calls (Called (DeleteBatch b) x # tr) = b # batch_calls tr"
| "batch_calls (ev # tr) = batch_calls tr"

fun returned :: "(exn + string list option) list \<Rightarrow> string list list" where
  "returned [] = []"
| "returned (Inr (Some b) # rs) = b # returned rs"
| "returned (r # rs) = returned rs"

fun attempt_result :: "string list \<Rightarrow> exn option \<Rightarrow> exn + string list option" where
  "attempt_result batch None = Inr None"
| "attempt_result batch (Some e) = Inr (Some batch)"

text \<open>
  Readings of a trace for the folder clean-up: \<open>deletes f tr\<close> says that \<open>tr\<close> holds a
  call that deletes the folder \<open>f\<close>; \<open>failed_checks tr\<close> lists the folders whose listing
  raised; and \<open>settled tr\<close> says that no listing of a folder that raised is followed,
  anywhere later in \<open>tr\<close>, by a call that deletes that folder.
\<close>

fun deletes :: "string \<Rightarrow> event list \<Rightarrow> bool" where
  "deletes f [] = False"
| "deletes f (Called (DeleteV2 g) x # tr) = (g = f \<or> deletes f tr)"
| "deletes f (ev # tr) = deletes f tr"



text \<open>
  For the dry run: the calls that change the remote; the events only the folder
  clean-up emits in a dry run (a non-recursive listing and the two log lines about
  a folder); \<open>quiet\<close> events, which are neither; \<open>quietly h h'\<close>, a trace \<open>h'\<close> that
  extends \<open>h\<close> by quiet events; and the events of a batch in a dry run.
\<close>

fun is_mutation :: "event \<Rightarrow> bool" where
  "is_mutation (Called (DeleteBatch batch) x) = True"
| "is_mutation (Called (DeleteV2 folder) x) = True"
| "is_mutation ev = False"

fun reclaim_event :: "event \<Rightarrow> bool" where
  "reclaim_event (Called (ListFolder folder recursive) x) = (\<not> recursive)"
| "reclaim_event (Log (WouldDelete folder)) = True"
| "reclaim_event (Log (CheckFailed folder e)) = True"
| "reclaim_event ev = False"

definition quiet :: "event \<Rightarrow> bool" where
  "quiet ev = (\<not> is_mutation ev \<and> \<not> reclaim_event ev)"

definition dry_batch_events :: "string list \<Rightarrow> event list" where
  "dry_batch_events batch = [Sleep API_DELAY, Log (ProcessedBatch (length batch))]"

definition quietly :: "event list \<Rightarrow> event list \<Rightarrow> bool" where
  "quietly h h' = (\<exists>new. h' = h @ new \<and> list_all quiet new)"

section \<open>Scenarios\<close>

text \<open>A listing that times out twice and then answers with an empty last page.\<close>

definition calls_made :: "event list \<Rightarrow> nat" where
  "calls_made h = length (filter (\<lambda>ev. case ev of Called c r \<Rightarrow> True | _ \<Rightarrow> False) h)"

definition empty_page :: list_result where
  "empty_page = \<lparr>entries = [], cursor = ''c0'', has_more = False\<rparr>"

definition flaky_listing :: "list_result func" where
  "flaky_listing =
     (ListFolder TARGET_FOLDER True,
      \<lambda>h. if calls_made h < 2 then Inl (Exn ReadTimeout ''read timed out'') else Inr empty_page)"

text \<open>
  A remote that answers every listing with an empty last page and accepts every
  deletion; the other scenarios change some of its methods.
\<close>

definition quiet_dbx :: dropbox where
  "quiet_dbx =
     \<lparr>files_list_folder = (\<lambda>h path recursive. Inr empty_page),
      files_list_folder_continue = (\<lambda>h c. Inr empty_page),
      files_delete_batch = (\<lambda>h batch. Inr ()),
      files_delete_v2 = (\<lambda>h path. Inr ())\<rparr>"

text \<open>
  A recursive listing of the root in one page: the excluded folder \<^verbatim>\<open>Archive\<close>, a memo
  file inside it and a report beside it.
\<close>

definition archive_page :: list_result where
  "archive_page =
     \<lparr>entries =
        [FolderMetadata ''Archive'' ''/$ jlr data migration/david/archive'',
         FileMetadata ''memo style.pdf'' ''/$ jlr data migration/david/archive/memo style.pdf'',
         FileMetadata ''report.pdf'' ''/$ jlr data migration/david/report.pdf''],
      cursor = ''c1'', has_more = False\<rparr>"

definition archive_dbx :: dropbox where
  "archive_dbx = quiet_dbx\<lparr>files_list_folder := (\<lambda>h path recursive. Inr archive_page)\<rparr>"

text \<open>
  A listing whose first page holds a target and announces more, and whose
  continuation always fails with an \<^verbatim>\<open>ApiError\<close>; the state and the trace of the scan
  after the first page and three retries.
\<close>

definition first_page :: list_result where
  "first_page =
     \<lparr>entries = [FileMetadata ''Memo-Style.pdf'' ''/$ jlr data migration/david/a/memo-style.pdf''],
      cursor = ''c1'', has_more = True\<rparr>"

definition broken_dbx :: dropbox where
  "broken_dbx =
     quiet_dbx\<lparr>files_list_folder := (\<lambda>h path recursive. Inr first_page),
               files_list_folder_continue := (\<lambda>h c. Inl (Exn ApiError ''internal error''))\<rparr>"

definition stalled_state :: scan_state where
  "stalled_state =
     \<lparr>st_results =
        \<lparr>target_files = [''/$ jlr data migration/david/a/memo-style.pdf''],
         other_files = [], failed_folders = []\<rparr>,
      st_cursor = Some ''c1'', processed_entries = 1, retry_count = 3\<rparr>"

definition stalled_trace :: "event list" where
  "stalled_trace =
     [Called (ListFolder TARGET_FOLDER True) None, Sleep 1,
      Called (ListFolderContinue ''c1'') (Some (Exn ApiError ''internal error'')),
      Log (ScanRetry 1 2), Sleep 2,
      Called (ListFolderContinue ''c1'') (Some (Exn ApiError ''internal error'')),
      Log (ScanRetry 2 4), Sleep 4,
      Called (ListFolderContinue ''c1'') (Some (Exn ApiError ''internal error'')),
      Log (ScanRetry 3 8), Sleep 8]"

text \<open>
  A remote whose listing of the target folder always fails with an \<^verbatim>\<open>ApiError\<close>; the
  state and the trace of the scan after three retries, no entry seen.
\<close>

definition down_dbx :: dropbox where
  "down_dbx =
     quiet_dbx\<lparr>files_list_folder := (\<lambda>h path recursive. Inl (Exn ApiError ''internal error''))\<rparr>"

definition down_state :: scan_state where
  "down_state = scan_init\<lparr>retry_count := 3\<rparr>"

definition down_trace :: "event list" where
  "down_trace =
     [Called (ListFolder TARGET_FOLDER True) (Some (Exn ApiError ''internal error'')),
      Log (ScanRetry 1 2), Sleep 2,
      Called (ListFolder TARGET_FOLDER True) (Some (Exn ApiError ''internal error'')),
      Log (ScanRetry 2 4), Sleep 4,
      Called (ListFolder TARGET_FOLDER True) (Some (Exn ApiError ''internal error'')),
      Log (ScanRetry 3 8), Sleep 8]"



text \<open>
  250 target paths, a remote whose second batch deletion of the run fails with an
  \<^verbatim>\<open>ApiError\<close> while every other one succeeds, and the events of the deletion.
\<close>

definition memo_path :: string where
  "memo_path = ''/$ jlr data migration/david/a/memo style.pdf''"

definition hiccup_dbx :: dropbox where
  "hiccup_dbx =
     quiet_dbx\<lparr>files_delete_batch :=
       (\<lambda>h batch. if calls_made h = 1 then Inl (Exn ApiError ''internal_error'') else Inr ())\<rparr>"

definition hiccup_trace :: "event list" where
  "hiccup_trace =
     [Sleep 1, Called (DeleteBatch (replicate 100 memo_path)) None, Log (ProcessedBatch 100),
      Sleep 1, Called (DeleteBatch (replicate 100 memo_path)) (Some (Exn ApiError ''internal_error'')),
      Log (BatchFailed (Exn ApiError ''internal_error'')),
      Sleep 1, Called (DeleteBatch (replicate 50 memo_path)) None, Log (ProcessedBatch 50),
      Sleep 2, Sleep 1, Called (DeleteBatch (replicate 100 memo_path)) None,
      Log (ProcessedBatch 100)]"

text \<open>
  A folder \<^verbatim>\<open>a\<close> under the root whose listing comes in pages of one entry: the first
  page holds a memo file and announces more, the second a contract. The remote
  answers every listing request with the first page and every continuation with the
  second.
\<close>

definition memo_page :: list_result where
  "memo_page =
     \<lparr>entries = [FileMetadata ''memo style.pdf'' ''/$ jlr data migration/david/a/memo style.pdf''],
      cursor = ''c1'', has_more = True\<rparr>"

definition contract_page :: list_result where
  "contract_page =
     \<lparr>entries = [FileMetadata ''contract.pdf'' ''/$ jlr data migration/david/a/contract.pdf''],
      cursor = ''c2'', has_more = False\<rparr>"

definition paged_dbx :: dropbox where
  "paged_dbx =
     quiet_dbx\<lparr>files_list_folder := (\<lambda>h path recursive. Inr memo_page),
               files_list_folder_continue := (\<lambda>h c. Inr contract_page)\<rparr>"



section \<open>Properties of \<^verbatim>\<open>robust_api_call\<close>\<close>

lemma retry_loop_spec:
  "a \<le> MAX_RETRIES \<Longrightarrow>
   \<exists>errs. retry_run func h a errs
            (retry_loop func [a..<Suc MAX_RETRIES] (backoff_wait a) lst h)"
proof (induction "MAX_RETRIES - a" arbitrary: a h lst)
  case 0
  then have a: "a = MAX_RETRIES" by simp
  obtain c op where f: "func = (c, op)" by (cases func)
  have l: "[a..<Suc MAX_RETRIES] = [a]" using a by simp
  have "retry_run func h a [] (retry_loop func [a..<Suc MAX_RETRIES] (backoff_wait a) lst h)"
    unfolding l by (cases "op h") (simp_all add: f retry_run_def a)
  then show ?case ..
next
  case (Suc n)
  then have lt: "a < MAX_RETRIES" and n: "n = MAX_RETRIES - Suc a" and le: "Suc a \<le> MAX_RETRIES"
    by simp_all
  obtain c op where f: "func = (c, op)" by (cases func)
  have l: "[a..<Suc MAX_RETRIES] = a # [Suc a..<Suc MAX_RETRIES]"
    using lt by (simp add: upt_conv_Cons)
  have w: "backoff_wait a * BACKOFF_FACTOR = backoff_wait (Suc a)"
    by (simp add: backoff_wait_def)
  show ?case
  proof (cases "op h")
    case (Inr v)
    then have "retry_run func h a [] (retry_loop func [a..<Suc MAX_RETRIES] (backoff_wait a) lst h)"
      using lt by (simp add: l f retry_run_def del: upt_Suc)
    then show ?thesis ..
  next
    case (Inl e)
    show ?thesis
    proof (cases "transient e")
      case False
      with Inl have "retry_run func h a [] (retry_loop func [a..<Suc MAX_RETRIES] (backoff_wait a) lst h)"
        using lt by (simp add: l f retry_run_def del: upt_Suc)
      then show ?thesis ..
    next
      case True
      let ?h = "h @ [Called c (Some e), Log (TimeoutRetry (Suc a) (backoff_wait (Suc a))),
                     Sleep (backoff_wait (Suc a))]"
      from Suc.hyps(1)[OF n le, of ?h "Some e"] obtain errs where
        r: "retry_run func ?h (Suc a) errs
              (retry_loop func [Suc a..<Suc MAX_RETRIES] (backoff_wait (Suc a)) (Some e) ?h)" ..
      have eq: "retry_loop func [a..<Suc MAX_RETRIES] (backoff_wait a) lst h =
                retry_loop func [Suc a..<Suc MAX_RETRIES] (backoff_wait (Suc a)) (Some e) ?h"
        using Inl True lt by (simp add: l f w Let_def del: upt_Suc)
      have "retry_run func h a (e # errs) (retry_loop func [a..<Suc MAX_RETRIES] (backoff_wait a) lst h)"
        using r True unfolding eq retry_run_def by (auto simp add: f Let_def simp del: upt_Suc)
      then show ?thesis ..
    qed
  qed
qed

text \<open>
  C5. Whatever the wrapped operation does, a run of \<^verbatim>\<open>robust_api_call\<close> is a sequence of
  at most \<^verbatim>\<open>MAX_RETRIES\<close> retries, each after an invocation that failed with a
  \<^verbatim>\<open>ReadTimeout\<close> or a \<^verbatim>\<open>ConnectionError\<close> and after a sleep of
  \<open>INITIAL_TIMEOUT * BACKOFF_FACTOR ^ k\<close> before the \<open>k\<close>-th retry, followed by one last
  invocation: either it returns and its value is the result, or it fails with an error
  of another class, which is raised at once, or it is invocation number
  \<^verbatim>\<open>MAX_RETRIES + 1\<close>, fails with a transient error, and that last error is raised.
\<close>

theorem robust_api_call_retries:
  "\<exists>errs. length errs \<le> MAX_RETRIES \<and> list_all transient errs \<and>
     (let h1 = h @ retry_events (fst func) 1 errs in
      (\<exists>v. snd func h1 = Inr v \<and>
           robust_api_call func h = (Inr v, h1 @ [Called (fst func) None])) \<or>
      (\<exists>e. snd func h1 = Inl e \<and> \<not> transient e \<and>
           robust_api_call func h = (Inl e, h1 @ [Called (fst func) (Some e)])) \<or>
      (\<exists>e. snd func h1 = Inl e \<and> transient e \<and> length errs = MAX_RETRIES \<and>
           robust_api_call func h =
             (Inl e, h1 @ [Called (fst func) (Some e), Log MaxRetriesExceeded])))"
proof -
  have "\<exists>errs. retry_run func h 0 errs
            (retry_loop func [0..<Suc MAX_RETRIES] (backoff_wait 0) None h)"
    by (rule retry_loop_spec) simp
  then show ?thesis
    by (simp add: retry_run_def robust_api_call_def backoff_wait_def)
qed

theorem robust_api_call_retries_witness:
  "robust_api_call flaky_listing [] =
     (Inr empty_page,
      [Called (ListFolder TARGET_FOLDER True) (Some (Exn ReadTimeout ''read timed out'')),
       Log (TimeoutRetry 1 90), Sleep 90,
       Called (ListFolder TARGET_FOLDER True) (Some (Exn ReadTimeout ''read timed out'')),
       Log (TimeoutRetry 2 135), Sleep 135,
       Called (ListFolder TARGET_FOLDER True) None]) \<and>
   (\<exists>errs. length errs \<le> MAX_RETRIES \<and> list_all transient errs \<and>
     (let h1 = [] @ retry_events (fst flaky_listing) 1 errs in
      (\<exists>v. snd flaky_listing h1 = Inr v \<and>
           robust_api_call flaky_listing [] = (Inr v, h1 @ [Called (fst flaky_listing) None])) \<or>
      (\<exists>e. snd flaky_listing h1 = Inl e \<and> \<not> transient e \<and>
           robust_api_call flaky_listing [] = (Inl e, h1 @ [Called (fst flaky_listing) (Some e)])) \<or>
      (\<exists>e. snd flaky_listing h1 = Inl e \<and> transient e \<and> length errs = MAX_RETRIES \<and>
           robust_api_call flaky_listing [] =
             (Inl e, h1 @ [Called (fst flaky_listing) (Some e), Log MaxRetriesExceeded]))))"
proof (rule conjI)
  show "\<exists>errs. length errs \<le> MAX_RETRIES \<and> list_all transient errs \<and>
     (let h1 = [] @ retry_events (fst flaky_listing) 1 errs in
      (\<exists>v. snd flaky_listing h1 = Inr v \<and>
           robust_api_call flaky_listing [] = (Inr v, h1 @ [Called (fst flaky_listing) None])) \<or>
      (\<exists>e. snd flaky_listing h1 = Inl e \<and> \<not> transient e \<and>
           robust_api_call flaky_listing [] = (Inl e, h1 @ [Called (fst flaky_listing) (Some e)])) \<or>
      (\<exists>e. snd flaky_listing h1 = Inl e \<and> transient e \<and> length errs = MAX_RETRIES \<and>
           robust_api_call flaky_listing [] =
             (Inl e, h1 @ [Called (fst flaky_listing) (Some e), Log MaxRetriesExceeded])))"
    by (rule robust_api_call_retries)
qed (simp add: robust_api_call_def flaky_listing_def calls_made_def MAX_RETRIES_def
      upt_conv_Cons transient_def INITIAL_TIMEOUT_def BACKOFF_FACTOR_def)

section \<open>Properties of \<^verbatim>\<open>is_target_file\<close>\<close>

lemma match_here_lits:
  "match_here (lits w @ r) s =
     (\<exists>u t. s = u @ t \<and> lower u = lower w \<and> match_here r t)"
proof (induction w arbitrary: s)
  case Nil
  then show ?case by (simp add: lits_def lower_def)
next
  case (Cons l w)
  show ?case
  proof (cases s)
    case Nil
    then show ?thesis by (simp add: lits_def lower_def)
  next
    case (Cons c s')
    have "match_here (lits (l # w) @ r) (c # s') =
            (lower_char c = lower_char l \<and> match_here (lits w @ r) s')"
      by (simp add: lits_def)
    also have "\<dots> = (lower_char c = lower_char l \<and>
                      (\<exists>u t. s' = u @ t \<and> lower u = lower w \<and> match_here r t))"
      by (simp only: Cons.IH)
    also have "\<dots> = (\<exists>u t. c # s' = u @ t \<and> lower u = lower (l # w) \<and> match_here r t)"
    proof
      assume "lower_char c = lower_char l \<and>
                (\<exists>u t. s' = u @ t \<and> lower u = lower w \<and> match_here r t)"
      then obtain u t where "lower_char c = lower_char l" "s' = u @ t" "lower u = lower w"
        "match_here r t" by blast
      then have "c # s' = (c # u) @ t \<and> lower (c # u) = lower (l # w) \<and> match_here r t"
        by (simp add: lower_def)
      then show "\<exists>u t. c # s' = u @ t \<and> lower u = lower (l # w) \<and> match_here r t"
        by blast
    next
      assume "\<exists>u t. c # s' = u @ t \<and> lower u = lower (l # w) \<and> match_here r t"
      then obtain u t where a: "c # s' = u @ t" "lower u = lower (l # w)" "match_here r t"
        by blast
      from a(2) obtain c' u' where u: "u = c' # u'" by (cases u) (auto simp: lower_def)
      with a have "c' = c" "s' = u' @ t" "lower_char c' = lower_char l" "lower u' = lower w"
        by (auto simp: lower_def)
      with a(3) show "lower_char c = lower_char l \<and>
                (\<exists>u t. s' = u @ t \<and> lower u = lower w \<and> match_here r t)"
        by blast
    qed
    finally show ?thesis using Cons by simp
  qed
qed

lemma match_here_many:
  "match_here (Many cs # r) s =
     (\<exists>u t. s = u @ t \<and> list_all (accepts cs) u \<and> match_here r t)"
proof (induction s)
  case Nil
  then show ?case by simp
next
  case (Cons c s)
  show ?case
  proof
    assume "match_here (Many cs # r) (c # s)"
    then consider "match_here r (c # s)" | "accepts cs c" "match_here (Many cs # r) s"
      by auto
    then show "\<exists>u t. c # s = u @ t \<and> list_all (accepts cs) u \<and> match_here r t"
    proof cases
      case 1
      then have "c # s = [] @ (c # s) \<and> list_all (accepts cs) [] \<and> match_here r (c # s)"
        by simp
      then show ?thesis by blast
    next
      case 2
      with Cons.IH obtain u t where "s = u @ t" "list_all (accepts cs) u" "match_here r t"
        by blast
      with 2 have "c # s = (c # u) @ t \<and> list_all (accepts cs) (c # u) \<and> match_here r t"
        by simp
      then show ?thesis by blast
    qed
  next
    assume "\<exists>u t. c # s = u @ t \<and> list_all (accepts cs) u \<and> match_here r t"
    then obtain u t where a: "c # s = u @ t" "list_all (accepts cs) u" "match_here r t"
      by blast
    show "match_here (Many cs # r) (c # s)"
    proof (cases u)
      case Nil
      with a have "t = c # s" by simp
      with a(3) show ?thesis by simp
    next
      case (Cons c' u')
      with a have "accepts cs c" "s = u' @ t" "list_all (accepts cs) u'" by auto
      with a(3) Cons.IH show ?thesis by auto
    qed
  qed
qed

lemma search_iff: "search p s = (\<exists>pre t. s = pre @ t \<and> match_here p t)"
proof (induction s)
  case Nil
  then show ?case by simp
next
  case (Cons c s)
  show ?case
  proof
    assume "search p (c # s)"
    then consider "match_here p (c # s)" | "search p s" by auto
    then show "\<exists>pre t. c # s = pre @ t \<and> match_here p t"
    proof cases
      case 1
      then have "c # s = [] @ (c # s) \<and> match_here p (c # s)" by simp
      then show ?thesis by blast
    next
      case 2
      with Cons.IH obtain pre t where "s = pre @ t" "match_here p t" by blast
      then have "c # s = (c # pre) @ t \<and> match_here p t" by simp
      then show ?thesis by blast
    qed
  next
    assume "\<exists>pre t. c # s = pre @ t \<and> match_here p t"
    then obtain pre t where a: "c # s = pre @ t" "match_here p t" by blast
    show "search p (c # s)"
    proof (cases pre)
      case Nil
      with a have "t = c # s" by simp
      with a(2) show ?thesis by simp
    next
      case (Cons c' pre')
      with a have "s = pre' @ t" by simp
      with a(2) Cons.IH show ?thesis by auto
    qed
  qed
qed

lemma accepts_separators:
  "accepts (Class [Whitespace, Lit CHR ''-'', Lit CHR ''_'']) c =
     (c \<in> set whitespace \<or> c = CHR ''-'' \<or> c = CHR ''_'')"
  by (simp add: lower_char_def)

lemma lower_lit [simp]:
  "lower ''memo'' = ''memo''" "lower ''style'' = ''style''" "lower ''.pdf'' = ''.pdf''"
  by (simp_all add: lower_def lower_char_def)

lemma lits_split:
  "lits ''memostyle.pdf'' = lits ''memo'' @ lits ''style'' @ lits ''.pdf''"
  "lits ''style.pdf'' = lits ''style'' @ lits ''.pdf''"
  by (simp_all add: lits_def)

lemma pattern3:
  "match_here (lits ''memo'' @ Many (Class [Whitespace, Lit CHR ''-'', Lit CHR ''_''])
                 # lits ''style'' @ Many Dot # lits ''.pdf'' @ [EndAnchor]) t = memo_style t"
  (is "match_here (_ @ ?sp # ?r2) t = _")
proof
  let ?r3 = "Many Dot # lits ''.pdf'' @ [EndAnchor]"
  assume "match_here (lits ''memo'' @ ?sp # ?r2) t"
  from iffD1[OF match_here_lits this]
  obtain m t1 where 1: "t = m @ t1" "lower m = lower ''memo''" "match_here (?sp # ?r2) t1"
    by blast
  from iffD1[OF match_here_many 1(3)]
  obtain sep t2 where 2: "t1 = sep @ t2"
      "list_all (accepts (Class [Whitespace, Lit CHR ''-'', Lit CHR ''_''])) sep"
      "match_here ?r2 t2"
    by blast
  from iffD1[OF match_here_lits 2(3)]
  obtain st t3 where 3: "t2 = st @ t3" "lower st = lower ''style''" "match_here ?r3 t3"
    by blast
  from iffD1[OF match_here_many 3(3)]
  obtain mid t4 where 4: "t3 = mid @ t4" "list_all (accepts Dot) mid"
      "match_here (lits ''.pdf'' @ [EndAnchor]) t4"
    by blast
  from iffD1[OF match_here_lits 4(3)]
  obtain pd nl where 5: "t4 = pd @ nl" "lower pd = lower ''.pdf''" "match_here [EndAnchor] nl"
    by blast
  have s: "list_all sep_char sep"
    using 2(2) by (simp add: sep_char_def [abs_def] accepts_separators [abs_def])
  have d: "newline \<notin> set mid" using 4(2) by (auto simp add: list_all_iff)
  have n: "nl = [] \<or> nl = [newline]" using 5(3) by simp
  have "t = m @ sep @ st @ mid @ pd @ nl" by (simp add: 1 2 3 4 5)
  with 1(2) s 3(2) d 5(2) n show "memo_style t"
    unfolding memo_style_def lower_lit by blast
next
  let ?r3 = "Many Dot # lits ''.pdf'' @ [EndAnchor]"
  assume "memo_style t"
  then obtain m sep st mid pd nl where a: "t = m @ sep @ st @ mid @ pd @ nl" "lower m = ''memo''"
      "list_all sep_char sep" "lower st = ''style''" "newline \<notin> set mid"
      "lower pd = ''.pdf''" "nl = [] \<or> nl = [newline]"
    unfolding memo_style_def by blast
  have "match_here [EndAnchor] nl" using a(7) by auto
  with a(6) have "\<exists>u t'. pd @ nl = u @ t' \<and> lower u = lower ''.pdf'' \<and> match_here [EndAnchor] t'"
    unfolding lower_lit by blast
  then have 5: "match_here (lits ''.pdf'' @ [EndAnchor]) (pd @ nl)"
    by (rule iffD2[OF match_here_lits])
  have "list_all (accepts Dot) mid" using a(5) by (auto simp add: list_all_iff)
  with 5 have "\<exists>u t'. mid @ pd @ nl = u @ t' \<and> list_all (accepts Dot) u \<and>
                  match_here (lits ''.pdf'' @ [EndAnchor]) t'"
    by blast
  then have 4: "match_here ?r3 (mid @ pd @ nl)"
    by (rule iffD2[OF match_here_many])
  with a(4) have "\<exists>u t'. st @ mid @ pd @ nl = u @ t' \<and> lower u = lower ''style'' \<and>
                  match_here ?r3 t'"
    unfolding lower_lit by blast
  then have 3: "match_here ?r2 (st @ mid @ pd @ nl)"
    by (rule iffD2[OF match_here_lits])
  have "list_all (accepts (Class [Whitespace, Lit CHR ''-'', Lit CHR ''_''])) sep"
    using a(3) by (simp add: sep_char_def [abs_def] accepts_separators [abs_def])
  with 3 have "\<exists>u t'. sep @ st @ mid @ pd @ nl = u @ t' \<and>
                  list_all (accepts (Class [Whitespace, Lit CHR ''-'', Lit CHR ''_''])) u \<and>
                  match_here ?r2 t'"
    by blast
  then have 2: "match_here (?sp # ?r2) (sep @ st @ mid @ pd @ nl)"
    by (rule iffD2[OF match_here_many])
  with a(2) have "\<exists>u t'. t = u @ t' \<and> lower u = lower ''memo'' \<and> match_here (?sp # ?r2) t'"
    unfolding lower_lit a(1) by blast
  then show "match_here (lits ''memo'' @ ?sp # ?r2) t"
    by (rule iffD2[OF match_here_lits])
qed

lemma match_here_skip_many: "match_here r t \<Longrightarrow> match_here (Many cs # r) t"
proof -
  assume "match_here r t"
  then have "\<exists>u t'. t = u @ t' \<and> list_all (accepts cs) u \<and> match_here r t'"
    by (intro exI[of _ "[]"] exI[of _ t]) simp
  then show ?thesis by (rule iffD2[OF match_here_many])
qed

lemma match_here_mono:
  assumes "\<And>t. match_here r t \<Longrightarrow> match_here r' t"
  shows "match_here (p @ r) t \<Longrightarrow> match_here (p @ r') t"
proof (induction p arbitrary: t)
  case Nil
  then show ?case using assms by simp
next
  case (Cons x p)
  show ?case
  proof (cases x)
    case (One cs)
    with Cons show ?thesis by (cases t) auto
  next
    case (Many cs)
    from Cons.prems have "match_here (Many cs # (p @ r)) t" using Many by simp
    from iffD1[OF match_here_many this] obtain u t' where
      "t = u @ t'" "list_all (accepts cs) u" "match_here (p @ r) t'" by blast
    with Cons.IH have "\<exists>u t'. t = u @ t' \<and> list_all (accepts cs) u \<and> match_here (p @ r') t'"
      by blast
    then have "match_here (Many cs # (p @ r')) t" by (rule iffD2[OF match_here_many])
    then show ?thesis using Many by simp
  next
    case EndAnchor
    with Cons show ?thesis by auto
  qed
qed

lemma search_mono:
  assumes "\<And>t. match_here p t \<Longrightarrow> match_here p' t"
  shows "search p s \<Longrightarrow> search p' s"
  unfolding search_iff using assms by blast

lemma pattern1_pattern3: "search (patterns ! 0) s \<Longrightarrow> search (patterns ! 2) s"
proof (rule search_mono)
  fix t
  let ?p = "lits ''memo'' @ [separators] @ lits ''style''"
  assume "match_here (patterns ! 0) t"
  then have "match_here (?p @ (lits ''.pdf'' @ [EndAnchor])) t"
    by (simp add: patterns_def lits_split)
  then have "match_here (?p @ (Many Dot # lits ''.pdf'' @ [EndAnchor])) t"
    by (rule match_here_mono[rotated]) (rule match_here_skip_many)
  then show "match_here (patterns ! 2) t" by (simp add: patterns_def)
qed

lemma pattern2_pattern3: "search (patterns ! 1) s \<Longrightarrow> search (patterns ! 2) s"
proof (rule search_mono)
  fix t
  assume "match_here (patterns ! 1) t"
  then have "match_here ((lits ''memo'' @ lits ''style'') @ (lits ''.pdf'' @ [EndAnchor])) t"
    by (simp add: patterns_def lits_split)
  then have "match_here ((lits ''memo'' @ lits ''style'') @ (Many Dot # lits ''.pdf'' @ [EndAnchor])) t"
    by (rule match_here_mono[rotated]) (rule match_here_skip_many)
  then have "match_here (lits ''memo'' @ (lits ''style'' @ Many Dot # lits ''.pdf'' @ [EndAnchor])) t"
    by simp
  then have "match_here (lits ''memo'' @ (separators # lits ''style'' @ Many Dot # lits ''.pdf'' @ [EndAnchor])) t"
    by (rule match_here_mono[rotated]) (simp only: separators_def match_here_skip_many)
  then show "match_here (patterns ! 2) t" by (simp add: patterns_def)
qed

lemma is_target_file_pattern3: "is_target_file n = search (patterns ! 2) n"
proof -
  have "is_target_file n =
          (search (patterns ! 0) n \<or> search (patterns ! 1) n \<or> search (patterns ! 2) n)"
    by (simp add: is_target_file_def patterns_def)
  then show ?thesis using pattern1_pattern3 pattern2_pattern3 by blast
qed

text \<open>
  C3, as amended. Names are sequences of code points below 256 (the type \<open>char\<close>): for
  every such name, \<open>is_target_file\<close> holds exactly when the name has a suffix of the
  shape \<open>memo_style\<close>: \<^verbatim>\<open>memo\<close>, a run of whitespace characters (not only spaces),
  hyphens and underscores, \<^verbatim>\<open>style\<close>, any characters except line feeds, and \<^verbatim>\<open>.pdf\<close>,
  case-insensitively, where one line feed may follow \<^verbatim>\<open>.pdf\<close> at the very end of the
  name. The first two patterns of the source add nothing to the third. Names with a
  code point from 256 on are not covered: there \<^verbatim>\<open>re.IGNORECASE\<close> also lets the long s
  (U+017F) stand for the \<^verbatim>\<open>s\<close> of \<^verbatim>\<open>style\<close>, and \<^verbatim>\<open>\s\<close> matches further whitespace.
\<close>

theorem is_target_file_memo_style:
  "is_target_file n = (\<exists>pre t. n = pre @ t \<and> memo_style t)"
proof -
  have "patterns ! 2 = lits ''memo'' @ Many (Class [Whitespace, Lit CHR ''-'', Lit CHR ''_''])
                 # lits ''style'' @ Many Dot # lits ''.pdf'' @ [EndAnchor]"
    by (simp add: patterns_def separators_def)
  then show ?thesis
    by (simp only: is_target_file_pattern3 search_iff pattern3)
qed

text \<open>
  C3 as stated fails: the name \<^verbatim>\<open>memostyle.pdf\<close> followed by a line feed does not end
  with any of the three forms (it is not a \<^verbatim>\<open>.pdf\<close> name), and \<open>is_target_file\<close>
  accepts it, since \<^verbatim>\<open>$\<close> also matches just before a final line feed.
\<close>

theorem is_target_file_counterexample:
  "is_target_file (''memostyle.pdf'' @ [newline]) \<and> \<not> spec_isTarget (''memostyle.pdf'' @ [newline])"
  by code_simp

theorem is_target_file_memo_style_witness:
  "is_target_file ''Q3 Memo_-Style v2.PDF'' \<and>
   (\<exists>pre t. ''Q3 Memo_-Style v2.PDF'' = pre @ t \<and> memo_style t)"
proof (rule conjI)
  show "is_target_file ''Q3 Memo_-Style v2.PDF''" by code_simp
  then show "\<exists>pre t. ''Q3 Memo_-Style v2.PDF'' = pre @ t \<and> memo_style t"
    by (simp only: is_target_file_memo_style)
qed

section \<open>Properties of \<^verbatim>\<open>scan_target_folder\<close>\<close>

text \<open>
  Whether an entry's path ends up among the targets depends on the entry being a file
  with a matching name only: the exclusion test of the loop skips folder entries, which
  are never appended anyway.
\<close>

lemma process_entry_targets:
  "target_files (fst (process_entry entry (res, n, h))) =
     (if is_file entry \<and> is_target_file (name entry)
      then target_files res @ [path_lower entry] else target_files res)"
  by (cases entry) (simp_all add: process_entry_def Let_def)

text \<open>
  C1 (the code at the failing input). The path of a memo file inside the excluded
  folder \<^verbatim>\<open>/$ JLR DATA MIGRATION/David/Archive\<close> starts with an excluded prefix, and the
  scan returns it as a target.
\<close>

theorem scan_keeps_file_under_excluded_folder:
  "list_ex (\<lambda>excl. startswith ''/$ jlr data migration/david/archive/memo style.pdf'' (lower excl))
     EXCLUDE_FOLDERS \<and>
   scan_target_folder archive_dbx 1 [] =
     (Some (Inr \<lparr>target_files = [''/$ jlr data migration/david/archive/memo style.pdf''],
                 other_files = [], failed_folders = []\<rparr>),
      [Called (ListFolder TARGET_FOLDER True) None, Log (ScanCompleted 3)])"
  by code_simp

lemma scan_loop_resume:
  "scan_loop dbx k s0 h = (Running, s, h1) \<Longrightarrow>
   scan_loop dbx (k + m) s0 h = scan_loop dbx m s h1"
proof (induction k arbitrary: s0 h)
  case 0
  then show ?case by simp
next
  case (Suc k)
  obtain r h' where f: "robust_api_call (page_request dbx (st_cursor s0)) h = (r, h')"
    by (cases "robust_api_call (page_request dbx (st_cursor s0)) h")
  show ?case
  proof (cases r)
    case (Inl e)
    show ?thesis
    proof (cases "scan_retryable e \<and> retry_count s0 < SCAN_MAX_RETRIES")
      case False
      with Suc.prems f Inl show ?thesis by auto
    next
      case True
      let ?s = "s0\<lparr>retry_count := retry_count s0 + 1\<rparr>"
      let ?h = "h' @ [Log (ScanRetry (retry_count s0 + 1) (API_DELAY * 2 ^ (retry_count s0 + 1))),
                     Sleep (API_DELAY * 2 ^ (retry_count s0 + 1))]"
      have step: "scan_loop dbx (Suc n) s0 h = scan_loop dbx n ?s ?h" for n
        using f Inl True by (simp add: Let_def del: power_Suc)
      from Suc.prems step[of k] have "scan_loop dbx k ?s ?h = (Running, s, h1)" by simp
      from Suc.IH[OF this] step[of "k + m"] show ?thesis by simp
    qed
  next
    case (Inr response)
    obtain res n' h2 where
      p: "process_entries (entries response) (st_results s0, processed_entries s0, h') = (res, n', h2)"
      by (cases "process_entries (entries response) (st_results s0, processed_entries s0, h')")
    show ?thesis
    proof (cases "has_more response")
      case False
      with Suc.prems f Inr p show ?thesis by (simp add: Let_def)
    next
      case True
      let ?s = "s0\<lparr>st_results := res, processed_entries := n',
                   st_cursor := Some (cursor response), retry_count := 0\<rparr>"
      let ?h = "h2 @ [Sleep API_DELAY]"
      have step: "scan_loop dbx (Suc n) s0 h = scan_loop dbx n ?s ?h" for n
        using f Inr p True by (simp add: Let_def)
      from Suc.prems step[of k] have "scan_loop dbx k ?s ?h = (Running, s, h1)" by simp
      from Suc.IH[OF this] step[of "k + m"] show ?thesis by simp
    qed
  qed
qed

text \<open>
  C9. Take any run of \<^verbatim>\<open>scan_target_folder\<close> that, after some number \<open>k\<close> of passes
  through its loop, has its retry counter at the ceiling of 3 and then meets one more
  failed page fetch. Whatever fuel beyond \<open>k\<close> the scan is given, it makes no further
  call and ends there: with at least one target found it returns the targets found
  so far and records the cursor (or the root) among \<^verbatim>\<open>failed_folders\<close>; with no target
  found it raises the error of that fetch.
\<close>

theorem scan_halts_when_retries_exhausted:
  assumes "scan_loop dbx k scan_init h = (Running, s, h1)"
    and "retry_count s = SCAN_MAX_RETRIES"
    and "robust_api_call (page_request dbx (st_cursor s)) h1 = (Inl e, h2)"
  shows "scan_target_folder dbx (Suc (k + n)) h =
     (if target_files (st_results s) = []
      then (Some (Inl e), h2 @ [Log (FatalScanError (processed_entries s) e)])
      else (Some (Inr ((st_results s)
                  \<lparr>failed_folders :=
                     failed_folders (st_results s) @ [cursor_or_target (st_cursor s)]\<rparr>)),
            h2 @ [Log (FatalScanError (processed_entries s) e),
                  Log (ScanCompleted (processed_entries s))]))"
proof -
  have "scan_loop dbx (k + Suc n) scan_init h = scan_loop dbx (Suc n) s h1"
    using assms(1) by (rule scan_loop_resume)
  then have "scan_target_folder dbx (Suc (k + n)) h = scan_finish (scan_loop dbx (Suc n) s h1)"
    by (simp add: scan_target_folder_def)
  also have "scan_loop dbx (Suc n) s h1 = (Raised e, s, h2)"
    using assms(2,3) by simp
  finally show ?thesis by (simp add: scan_finish_def Let_def)
qed

lemma stalled_reached:
  "scan_loop broken_dbx 4 scan_init [] = (Running, stalled_state, stalled_trace)"
  by code_simp

lemma stalled_fetch:
  "robust_api_call (page_request broken_dbx (st_cursor stalled_state)) stalled_trace =
     (Inl (Exn ApiError ''internal error''),
      stalled_trace @ [Called (ListFolderContinue ''c1'') (Some (Exn ApiError ''internal error''))])"
  by code_simp

lemma down_reached: "scan_loop down_dbx 3 scan_init [] = (Running, down_state, down_trace)"
  by code_simp

lemma down_fetch:
  "robust_api_call (page_request down_dbx (st_cursor down_state)) down_trace =
     (Inl (Exn ApiError ''internal error''),
      down_trace @ [Called (ListFolder TARGET_FOLDER True) (Some (Exn ApiError ''internal error''))])"
  by code_simp

theorem scan_halts_when_retries_exhausted_witness:
  "scan_target_folder broken_dbx 5 [] =
     (Some (Inr \<lparr>target_files = [''/$ jlr data migration/david/a/memo-style.pdf''],
                 other_files = [], failed_folders = [''c1'']\<rparr>),
      stalled_trace @
        [Called (ListFolderContinue ''c1'') (Some (Exn ApiError ''internal error'')),
         Log (FatalScanError 1 (Exn ApiError ''internal error'')),
         Log (ScanCompleted 1)]) \<and>
   scan_target_folder down_dbx 4 [] =
     (Some (Inl (Exn ApiError ''internal error'')),
      down_trace @
        [Called (ListFolder TARGET_FOLDER True) (Some (Exn ApiError ''internal error'')),
         Log (FatalScanError 0 (Exn ApiError ''internal error''))])"
proof (rule conjI)
  have c: "retry_count stalled_state = SCAN_MAX_RETRIES" by code_simp
  from scan_halts_when_retries_exhausted[OF stalled_reached c stalled_fetch, of 0]
  show "scan_target_folder broken_dbx 5 [] =
     (Some (Inr \<lparr>target_files = [''/$ jlr data migration/david/a/memo-style.pdf''],
                 other_files = [], failed_folders = [''c1'']\<rparr>),
      stalled_trace @
        [Called (ListFolderContinue ''c1'') (Some (Exn ApiError ''internal error'')),
         Log (FatalScanError 1 (Exn ApiError ''internal error'')),
         Log (ScanCompleted 1)])"
    by (simp add: stalled_state_def)
next
  have c: "retry_count down_state = SCAN_MAX_RETRIES" by code_simp
  from scan_halts_when_retries_exhausted[OF down_reached c down_fetch, of 0]
  show "scan_target_folder down_dbx 4 [] =
     (Some (Inl (Exn ApiError ''internal error'')),
      down_trace @
        [Called (ListFolder TARGET_FOLDER True) (Some (Exn ApiError ''internal error'')),
         Log (FatalScanError 0 (Exn ApiError ''internal error''))])"
    by (simp add: down_state_def scan_init_def)
qed

section \<open>Properties of \<^verbatim>\<open>turbo_delete_files\<close>\<close>

lemma batch_failures_append: "batch_failures (xs @ ys) = batch_failures xs @ batch_failures ys"
  by (induction xs rule: batch_failures.induct) simp_all

lemma deleted_paths_append: "deleted_paths (xs @ ys) = deleted_paths xs @ deleted_paths ys"
  by (induction xs rule: deleted_paths.induct) simp_all

lemma batch_calls_append: "batch_calls (xs @ ys) = batch_calls xs @ batch_calls ys"
  by (induction xs rule: batch_calls.induct) simp_all

lemma subset_add_mset: "A \<subseteq># B \<Longrightarrow> A \<subseteq># add_mset b B"
  by (auto simp: subseteq_mset_def le_SucI)


lemma returned_Cons: "returned (r # rs) = returned [r] @ returned rs"
proof (cases r)
  case (Inl e)
  then show ?thesis by simp
next
  case (Inr v)
  then show ?thesis by (cases v) simp_all
qed

lemma attempt_shape:
  assumes s: "snd d = h @ attempt_events b out" and f: "fst d = attempt_result b out"
  shows "\<exists>new. snd d = h @ new \<and> batch_calls new = [b] \<and>
     (\<forall>e. fst d = Inl e \<longrightarrow> e \<in> set (batch_failures new) \<and> \<not> is_api_error e) \<and>
     returned [fst d] \<in> {[], [b]} \<and>
     ((\<exists>out. new = attempt_events b out \<and> fst d = attempt_result b out)
      \<or> \<not> list_all is_api_error (batch_failures new))"
proof (intro exI[of _ "attempt_events b out"] conjI)
  show "snd d = h @ attempt_events b out" by (rule s)
  show "batch_calls (attempt_events b out) = [b]" by (cases out) simp_all
  show "\<forall>e. fst d = Inl e \<longrightarrow>
          e \<in> set (batch_failures (attempt_events b out)) \<and> \<not> is_api_error e"
    using f by (cases out) simp_all
  show "returned [fst d] \<in> {[], [b]}" using f by (cases out) simp_all
  show "(\<exists>out'. attempt_events b out = attempt_events b out' \<and> fst d = attempt_result b out')
      \<or> \<not> list_all is_api_error (batch_failures (attempt_events b out))"
    using f by blast
qed

lemma delete_batch_live:
  "\<exists>new. snd (delete_batch dbx False b h) = h @ new \<and> batch_calls new = [b] \<and>
     (\<forall>e. fst (delete_batch dbx False b h) = Inl e \<longrightarrow>
          e \<in> set (batch_failures new) \<and> \<not> is_api_error e) \<and>
     returned [fst (delete_batch dbx False b h)] \<in> {[], [b]} \<and>
     ((\<exists>out. new = attempt_events b out \<and> fst (delete_batch dbx False b h) = attempt_result b out)
      \<or> \<not> list_all is_api_error (batch_failures new))"
proof (cases "files_delete_batch dbx (h @ [Sleep API_DELAY]) b")
  case (Inr u)
  then have "snd (delete_batch dbx False b h) = h @ attempt_events b None"
    "fst (delete_batch dbx False b h) = attempt_result b None"
    by (simp_all add: delete_batch_def Let_def)
  then show ?thesis by (rule attempt_shape)
next
  case (Inl e)
  show ?thesis
  proof (cases "is_api_error e")
    case True
    with Inl have "snd (delete_batch dbx False b h) = h @ attempt_events b (Some e)"
      "fst (delete_batch dbx False b h) = attempt_result b (Some e)"
      by (simp_all add: delete_batch_def Let_def)
    then show ?thesis by (rule attempt_shape)
  next
    case False
    let ?new = "[Sleep API_DELAY, Called (DeleteBatch b) (Some e)]"
    from Inl False have "delete_batch dbx False b h = (Inl e, h @ ?new)"
      by (simp add: delete_batch_def Let_def)
    then show ?thesis using False by (intro exI[of _ ?new]) auto
  qed
qed

text \<open>
  The pool, whatever it has started: it calls each batch at most once, every
  exception among its results was raised by a deletion and is no \<^verbatim>\<open>ApiError\<close>, and
  every batch among its results is one of the batches.
\<close>

lemma executor_map_calls:
  "\<exists>new. snd (executor_map (delete_batch dbx False) started raised i bs h) = h @ new \<and>
     mset (batch_calls new) \<subseteq># mset bs \<and>
     (\<forall>e. Inl e \<in> set (fst (executor_map (delete_batch dbx False) started raised i bs h)) \<longrightarrow>
          e \<in> set (batch_failures new) \<and> \<not> is_api_error e) \<and>
     mset (returned (fst (executor_map (delete_batch dbx False) started raised i bs h)))
       \<subseteq># mset bs"
proof (induction bs arbitrary: raised i h)
  case Nil
  show ?case by simp
next
  case (Cons b bs)
  show ?case
  proof (cases "raised \<and> started \<le> i")
    case True
    then have "executor_map (delete_batch dbx False) started raised i (b # bs) h = ([], h @ [])"
      by simp
    then show ?thesis by (intro exI[of _ "[]"]) simp
  next
    case False
    obtain r h1 where d: "delete_batch dbx False b h = (r, h1)"
      by (cases "delete_batch dbx False b h")
    obtain rs h2 where
      m: "executor_map (delete_batch dbx False) started (raised \<or> isl r) (Suc i) bs h1 = (rs, h2)"
      by (cases "executor_map (delete_batch dbx False) started (raised \<or> isl r) (Suc i) bs h1")
    have e: "executor_map (delete_batch dbx False) started raised i (b # bs) h = (r # rs, h2)"
      using False d m by simp
    from delete_batch_live[of dbx b h] d obtain new1 where
      1: "h1 = h @ new1" "batch_calls new1 = [b]"
         "\<forall>e. r = Inl e \<longrightarrow> e \<in> set (batch_failures new1) \<and> \<not> is_api_error e"
         "returned [r] \<in> {[], [b]}"
      by auto
    from Cons.IH[of "raised \<or> isl r" "Suc i" h1] m obtain new2 where
      2: "h2 = h1 @ new2" "mset (batch_calls new2) \<subseteq># mset bs"
         "\<forall>e. Inl e \<in> set rs \<longrightarrow> e \<in> set (batch_failures new2) \<and> \<not> is_api_error e"
         "mset (returned rs) \<subseteq># mset bs"
      by auto
    have r: "returned (r # rs) = returned [r] @ returned rs" by (rule returned_Cons)
    have "h2 = h @ (new1 @ new2)" using 1(1) 2(1) by simp
    moreover have "mset (batch_calls (new1 @ new2)) \<subseteq># mset (b # bs)"
      using 1(2) 2(2) by (simp add: batch_calls_append)
    moreover have "\<forall>e. Inl e \<in> set (r # rs) \<longrightarrow>
                     e \<in> set (batch_failures (new1 @ new2)) \<and> \<not> is_api_error e"
      using 1(3) 2(3) by (auto simp: batch_failures_append)
    moreover have "mset (returned (r # rs)) \<subseteq># mset (b # bs)"
    proof (cases "returned [r] = []")
      case True
      with r 2(4) show ?thesis by (simp add: subset_add_mset)
    next
      case False
      with 1(4) have "returned [r] = [b]" by simp
      with r 2(4) show ?thesis by simp
    qed
    ultimately show ?thesis using e by (intro exI[of _ "new1 @ new2"]) simp
  qed
qed

text \<open>
  A pass of the pool in which no batch has raised so far: either every failure is an
  \<^verbatim>\<open>ApiError\<close>, every batch is attempted and the events are those of one attempt for
  each, or a deletion has failed with an error of another class.
\<close>

lemma executor_map_live:
  "\<exists>new. snd (executor_map (delete_batch dbx False) started False i bs h) = h @ new \<and>
     ((\<exists>outs. length outs = length bs \<and> new = concat (map2 attempt_events bs outs) \<and>
              fst (executor_map (delete_batch dbx False) started False i bs h) =
                map2 attempt_result bs outs)
      \<or> \<not> list_all is_api_error (batch_failures new))"
proof (induction bs arbitrary: i h)
  case Nil
  then show ?case by simp
next
  case (Cons b bs)
  obtain r h1 where d: "delete_batch dbx False b h = (r, h1)" by (cases "delete_batch dbx False b h")
  obtain rs h2 where
    m: "executor_map (delete_batch dbx False) started (isl r) (Suc i) bs h1 = (rs, h2)"
    by (cases "executor_map (delete_batch dbx False) started (isl r) (Suc i) bs h1")
  have e: "executor_map (delete_batch dbx False) started False i (b # bs) h = (r # rs, h2)"
    by (simp add: d m)
  from delete_batch_live[of dbx b h] d obtain new1 where
    1: "h1 = h @ new1"
       "(\<exists>out. new1 = attempt_events b out \<and> r = attempt_result b out)
        \<or> \<not> list_all is_api_error (batch_failures new1)"
    by auto
  from executor_map_calls[of dbx started "isl r" "Suc i" bs h1] m obtain new2 where
    2: "h2 = h1 @ new2" by auto
  have h2: "h2 = h @ (new1 @ new2)" using 1(1) 2 by simp
  show ?case
  proof (cases "list_all is_api_error (batch_failures (new1 @ new2))")
    case False
    with h2 e show ?thesis by auto
  next
    case True
    then have a: "list_all is_api_error (batch_failures new1)"
      "list_all is_api_error (batch_failures new2)"
      by (simp_all add: batch_failures_append)
    with 1(2) obtain out where o: "new1 = attempt_events b out" "r = attempt_result b out"
      by blast
    then have "\<not> isl r" by (cases out) simp_all
    with m have m': "executor_map (delete_batch dbx False) started False (Suc i) bs h1 = (rs, h2)"
      by simp
    from Cons.IH[of "Suc i" h1] m' 2 a(2) obtain outs where
      "length outs = length bs" "new2 = concat (map2 attempt_events bs outs)"
      "rs = map2 attempt_result bs outs"
      by auto
    with o have "length (out # outs) = length (b # bs) \<and>
               new1 @ new2 = concat (map2 attempt_events (b # bs) (out # outs)) \<and>
               r # rs = map2 attempt_result (b # bs) (out # outs)"
      by simp
    with h2 e show ?thesis by (metis fst_conv snd_conv)
  qed
qed

lemma retry_failed_live:
  "\<exists>new. snd (retry_failed dbx False fs h) = h @ new \<and>
     ((\<exists>outs. length outs = length fs \<and> new = concat (map2 retry_attempt_events fs outs) \<and>
              fst (retry_failed dbx False fs h) = Inr ())
      \<or> \<not> list_all is_api_error (batch_failures new))"
proof (induction fs arbitrary: h)
  case Nil
  then show ?case by simp
next
  case (Cons b fs)
  let ?h = "h @ [Sleep (API_DELAY * 2)]"
  obtain r h1 where d: "delete_batch dbx False b ?h = (r, h1)"
    by (cases "delete_batch dbx False b ?h")
  from delete_batch_live[of dbx b ?h] d obtain new1 where
    1: "h1 = ?h @ new1"
       "(\<exists>out. new1 = attempt_events b out \<and> r = attempt_result b out)
        \<or> \<not> list_all is_api_error (batch_failures new1)"
    by auto
  show ?case
  proof (cases "list_all is_api_error (batch_failures new1)")
    case True
    with 1(2) obtain out where o: "new1 = attempt_events b out" "r = attempt_result b out"
      by blast
    then obtain v where v: "r = Inr v" by (cases out) auto
    have e: "retry_failed dbx False (b # fs) h = retry_failed dbx False fs h1"
      by (simp add: d v)
    from Cons.IH[of h1] obtain new2 where
      2: "snd (retry_failed dbx False fs h1) = h1 @ new2"
         "(\<exists>outs. length outs = length fs \<and> new2 = concat (map2 retry_attempt_events fs outs) \<and>
              fst (retry_failed dbx False fs h1) = Inr ())
          \<or> \<not> list_all is_api_error (batch_failures new2)"
      by auto
    have s: "snd (retry_failed dbx False (b # fs) h) = h @ (retry_attempt_events b out @ new2)"
      using e 2(1) 1(1) o(1) by (simp add: retry_attempt_events_def)
    show ?thesis
    proof (cases "list_all is_api_error (batch_failures new2)")
      case True
      with 2(2) obtain outs where "length outs = length fs"
        "new2 = concat (map2 retry_attempt_events fs outs)"
        "fst (retry_failed dbx False fs h1) = Inr ()" by blast
      then have "length (out # outs) = length (b # fs) \<and>
           retry_attempt_events b out @ new2 = concat (map2 retry_attempt_events (b # fs) (out # outs)) \<and>
           fst (retry_failed dbx False (b # fs) h) = Inr ()"
        using e by simp
      with s show ?thesis by metis
    next
      case False
      then have "\<not> list_all is_api_error (batch_failures (retry_attempt_events b out @ new2))"
        by (simp add: batch_failures_append)
      with s show ?thesis by metis
    qed
  next
    case False
    have "\<exists>rest. snd (retry_failed dbx False (b # fs) h) = h @ (Sleep (API_DELAY * 2) # new1 @ rest)"
    proof (cases r)
      case (Inl e)
      then have "snd (retry_failed dbx False (b # fs) h) = h @ (Sleep (API_DELAY * 2) # new1 @ [])"
        using d 1(1) by simp
      then show ?thesis ..
    next
      case (Inr v)
      from Cons.IH[of h1] obtain new2 where "snd (retry_failed dbx False fs h1) = h1 @ new2"
        by auto
      then have "snd (retry_failed dbx False (b # fs) h) = h @ (Sleep (API_DELAY * 2) # new1 @ new2)"
        using d Inr 1(1) by simp
      then show ?thesis ..
    qed
    then obtain rest where
      r: "snd (retry_failed dbx False (b # fs) h) = h @ (Sleep (API_DELAY * 2) # new1 @ rest)" ..
    have "\<not> list_all is_api_error (batch_failures (Sleep (API_DELAY * 2) # new1 @ rest))"
      using False by (simp add: batch_failures_append)
    with r show ?thesis by metis
  qed
qed




lemma collect_attempts:
  "length outs = length bs \<Longrightarrow> [] \<notin> set bs \<Longrightarrow>
   \<exists>vs. collect (map2 attempt_result bs outs) = Inr vs \<and> filter_none vs = failed_batches bs outs"
proof (induction bs outs rule: list_induct2')
  case (4 b bs out outs)
  then obtain vs where vs: "collect (map2 attempt_result bs outs) = Inr vs"
    "filter_none vs = failed_batches bs outs" by auto
  from 4(3) have "b \<noteq> []" by auto
  with vs show ?case by (cases out) simp_all
qed simp_all

lemma range_step_bound: "0 < step \<Longrightarrow> i \<in> set (range_step n step) \<Longrightarrow> i < n"
proof -
  assume s: "0 < step" and "i \<in> set (range_step n step)"
  then obtain k where k: "i = k * step" "k < (n + step - 1) div step"
    by (auto simp: range_step_def)
  from k(2) have "Suc k \<le> (n + step - 1) div step" by simp
  then have "Suc k * step \<le> n + step - 1" using s by (simp add: less_eq_div_iff_mult_less_eq)
  then show "i < n" using k(1) s by simp
qed

lemma batches_nonempty: "[] \<notin> set (batches_of paths)"
proof
  assume "[] \<in> set (batches_of paths)"
  then obtain i where i: "i \<in> set (range_step (length paths) BATCH_SIZE)"
      "slice paths i (i + BATCH_SIZE) = []"
    by (auto simp: batches_of_def)
  from range_step_bound[OF _ i(1)] have "i < length paths" by (simp add: BATCH_SIZE_def)
  with i(2) show False by (simp add: slice_def BATCH_SIZE_def)
qed

lemma turbo_delete_files_live:
  "\<exists>new. snd (turbo_delete_files dbx False started paths h) = h @ new \<and>
     ((\<exists>outs retry_outs.
         length outs = length (batches_of paths) \<and>
         length retry_outs = length (failed_batches (batches_of paths) outs) \<and>
         new = concat (map2 attempt_events (batches_of paths) outs) @
               concat (map2 retry_attempt_events (failed_batches (batches_of paths) outs) retry_outs) \<and>
         fst (turbo_delete_files dbx False started paths h) = Inr ())
      \<or> \<not> list_all is_api_error (batch_failures new))"
proof -
  let ?bs = "batches_of paths"
  obtain rs h1 where m: "executor_map (delete_batch dbx False) started False 0 ?bs h = (rs, h1)"
    by (cases "executor_map (delete_batch dbx False) started False 0 ?bs h")
  from executor_map_live[of dbx started 0 ?bs h] m obtain new1 where
    1: "h1 = h @ new1"
       "(\<exists>outs. length outs = length ?bs \<and> new1 = concat (map2 attempt_events ?bs outs) \<and>
              rs = map2 attempt_result ?bs outs)
        \<or> \<not> list_all is_api_error (batch_failures new1)"
    by auto
  show ?thesis
  proof (cases "list_all is_api_error (batch_failures new1)")
    case True
    with 1(2) obtain outs where o: "length outs = length ?bs"
      "new1 = concat (map2 attempt_events ?bs outs)" "rs = map2 attempt_result ?bs outs"
      by blast
    from collect_attempts[OF o(1) batches_nonempty] o(3) obtain vs where
      vs: "collect rs = Inr vs" "filter_none vs = failed_batches ?bs outs" by auto
    have t: "turbo_delete_files dbx False started paths h =
               retry_failed dbx False (failed_batches ?bs outs) h1"
      by (simp add: turbo_delete_files_def m vs)
    from retry_failed_live[of dbx "failed_batches ?bs outs" h1] obtain new2 where
      2: "snd (retry_failed dbx False (failed_batches ?bs outs) h1) = h1 @ new2"
         "(\<exists>routs. length routs = length (failed_batches ?bs outs) \<and>
              new2 = concat (map2 retry_attempt_events (failed_batches ?bs outs) routs) \<and>
              fst (retry_failed dbx False (failed_batches ?bs outs) h1) = Inr ())
          \<or> \<not> list_all is_api_error (batch_failures new2)"
      by auto
    have s: "snd (turbo_delete_files dbx False started paths h) = h @ (new1 @ new2)"
      using t 2(1) 1(1) by simp
    show ?thesis
    proof (cases "list_all is_api_error (batch_failures new2)")
      case True
      with 2(2) obtain routs where "length routs = length (failed_batches ?bs outs)"
        "new2 = concat (map2 retry_attempt_events (failed_batches ?bs outs) routs)"
        "fst (retry_failed dbx False (failed_batches ?bs outs) h1) = Inr ()" by blast
      with o(1,2) t have "length outs = length ?bs \<and>
         length routs = length (failed_batches ?bs outs) \<and>
         new1 @ new2 = concat (map2 attempt_events ?bs outs) @
               concat (map2 retry_attempt_events (failed_batches ?bs outs) routs) \<and>
         fst (turbo_delete_files dbx False started paths h) = Inr ()" by simp
      with s show ?thesis by blast
    next
      case False
      then have "\<not> list_all is_api_error (batch_failures (new1 @ new2))"
        by (simp add: batch_failures_append)
      with s show ?thesis by blast
    qed
  next
    case False
    have "\<exists>rest. snd (turbo_delete_files dbx False started paths h) = h @ (new1 @ rest)"
    proof (cases "collect rs")
      case (Inl e)
      then have "snd (turbo_delete_files dbx False started paths h) = h @ (new1 @ [])"
        using m 1(1) by (simp add: turbo_delete_files_def)
      then show ?thesis ..
    next
      case (Inr vs)
      from retry_failed_live[of dbx "filter_none vs" h1] obtain new2 where
        "snd (retry_failed dbx False (filter_none vs) h1) = h1 @ new2" by auto
      then have "snd (turbo_delete_files dbx False started paths h) = h @ (new1 @ new2)"
        using m Inr 1(1) by (simp add: turbo_delete_files_def)
      then show ?thesis ..
    qed
    then obtain rest where r: "snd (turbo_delete_files dbx False started paths h) = h @ (new1 @ rest)" ..
    have "\<not> list_all is_api_error (batch_failures (new1 @ rest))"
      using False by (simp add: batch_failures_append)
    with r show ?thesis by blast
  qed
qed





lemma pass_accounting:
  "length outs = length bs \<Longrightarrow>
   mset (deleted_paths (concat (map2 attempt_events bs outs))) +
     mset (concat (failed_batches bs outs)) = mset (concat bs) \<and>
   length (batch_failures (concat (map2 attempt_events bs outs))) =
     length (failed_batches bs outs)"
proof (induction bs outs rule: list_induct2')
  case (4 b bs out outs)
  then show ?case
    by (cases out) (simp_all add: deleted_paths_append batch_failures_append)
qed simp_all

lemma retry_accounting:
  "length outs = length fs \<Longrightarrow>
   batch_failures (concat (map2 retry_attempt_events fs outs)) = [] \<Longrightarrow>
   deleted_paths (concat (map2 retry_attempt_events fs outs)) = concat fs"
proof (induction fs outs rule: list_induct2')
  case (4 b fs out outs)
  then show ?case
    by (cases out)
       (simp_all add: retry_attempt_events_def deleted_paths_append batch_failures_append)
qed simp_all

lemma batches_250:
  assumes "length paths = 250"
  shows "batches_of paths =
           [take 100 paths, take 100 (drop 100 paths), drop 200 paths]"
proof -
  have "range_step 250 100 = [0, 100, 200]"
    by (simp add: range_step_def upt_conv_Cons)
  then show ?thesis using assms
    by (simp add: batches_of_def BATCH_SIZE_def slice_def)
qed

text \<open>
  C8. 250 paths are split into batches of 100, 100 and 50 paths whose concatenation
  is the input; and in every live run on them in which exactly one batch deletion
  fails, with an \<^verbatim>\<open>ApiError\<close>, the function returns normally and the successful batch
  deletions cover each of the 250 paths exactly once.
\<close>

theorem turbo_delete_files_250:
  assumes "length paths = 250"
  shows "map length (batches_of paths) = [100, 100, 50] \<and>
         concat (batches_of paths) = paths \<and>
         (\<forall>dbx started h r new e.
            turbo_delete_files dbx False started paths h = (r, h @ new) \<and>
            batch_failures new = [e] \<and> is_api_error e \<longrightarrow>
            r = Inr () \<and> mset (deleted_paths new) = mset paths)"
proof (intro conjI allI impI)
  show "map length (batches_of paths) = [100, 100, 50]"
    using assms by (simp add: batches_250[OF assms])
  have "take 100 paths @ take 100 (drop 100 paths) @ drop 200 paths =
          take 100 paths @ drop 100 paths"
  proof -
    have "take 100 (drop 100 paths) @ drop 100 (drop 100 paths) = drop 100 paths"
      by (rule append_take_drop_id)
    then show ?thesis by simp
  qed
  then show c: "concat (batches_of paths) = paths"
    by (simp add: batches_250[OF assms])
  fix dbx started h r new e
  assume a: "turbo_delete_files dbx False started paths h = (r, h @ new) \<and>
            batch_failures new = [e] \<and> is_api_error e"
  then have api: "list_all is_api_error (batch_failures new)" by simp
  from turbo_delete_files_live[of dbx started paths h] a api obtain outs routs where
    o: "length outs = length (batches_of paths)"
       "length routs = length (failed_batches (batches_of paths) outs)"
       "new = concat (map2 attempt_events (batches_of paths) outs) @
               concat (map2 retry_attempt_events (failed_batches (batches_of paths) outs) routs)"
       "r = Inr ()"
    by auto
  show "r = Inr ()" by (rule o(4))
  let ?p1 = "concat (map2 attempt_events (batches_of paths) outs)"
  let ?fb = "failed_batches (batches_of paths) outs"
  let ?p2 = "concat (map2 retry_attempt_events ?fb routs)"
  from pass_accounting[OF o(1)] have
    acc: "mset (deleted_paths ?p1) + mset (concat ?fb) = mset (concat (batches_of paths))"
    and len: "length (batch_failures ?p1) = length ?fb" by simp_all
  from a o(3) have f: "batch_failures ?p1 @ batch_failures ?p2 = [e]"
    by (simp add: batch_failures_append)
  have "batch_failures ?p2 = []"
  proof (cases "batch_failures ?p1")
    case Nil
    with len have "?fb = []" by simp
    with o(2) have "routs = []" by simp
    then have "batch_failures ?p2 = []" by simp
    with f Nil show ?thesis by simp
  next
    case (Cons x xs)
    with f show ?thesis by simp
  qed
  from retry_accounting[OF o(2) this] have "deleted_paths ?p2 = concat ?fb" .
  then have "mset (deleted_paths new) = mset (deleted_paths ?p1) + mset (concat ?fb)"
    by (simp add: o(3) deleted_paths_append)
  with acc c show "mset (deleted_paths new) = mset paths" by simp
qed

lemma hiccup_run:
  "turbo_delete_files hiccup_dbx False 4 (replicate 250 memo_path) [] = (Inr (), [] @ hiccup_trace)"
  by code_simp

theorem turbo_delete_files_250_witness:
  "length (replicate 250 memo_path) = 250 \<and>
   turbo_delete_files hiccup_dbx False 4 (replicate 250 memo_path) [] = (Inr (), [] @ hiccup_trace) \<and>
   batch_failures hiccup_trace = [Exn ApiError ''internal_error''] \<and>
   is_api_error (Exn ApiError ''internal_error'') \<and>
   map length (batches_of (replicate 250 memo_path)) = [100, 100, 50] \<and>
   concat (batches_of (replicate 250 memo_path)) = replicate 250 memo_path \<and>
   mset (deleted_paths hiccup_trace) = mset (replicate 250 memo_path)"
proof -
  have len: "length (replicate 250 memo_path) = 250" by simp
  have f: "batch_failures hiccup_trace = [Exn ApiError ''internal_error'']"
    by (simp add: hiccup_trace_def)
  have a: "is_api_error (Exn ApiError ''internal_error'')" by (simp add: is_api_error_def)
  from turbo_delete_files_250[OF len] hiccup_run f a
  have "map length (batches_of (replicate 250 memo_path)) = [100, 100, 50] \<and>
        concat (batches_of (replicate 250 memo_path)) = replicate 250 memo_path \<and>
        mset (deleted_paths hiccup_trace) = mset (replicate 250 memo_path)"
    by blast
  with len hiccup_run f a show ?thesis by blast
qed

section \<open>Properties of \<^verbatim>\<open>clean_empty_folders\<close>\<close>

lemma sole_candidate:
  "folders_to_check [''/$ jlr data migration/david/a/memo style.pdf''] [] =
     Some [''/$ jlr data migration/david/a'']"
  by code_simp

lemma sole_candidate_run:
  "process_folders paged_dbx False [''/$ jlr data migration/david/a''] [] =
     (Inr (),
       [Called (ListFolder ''/$ jlr data migration/david/a'' False) None,
        Called (DeleteV2 ''/$ jlr data migration/david/a'') None,
        Log (DeletedFolder ''/$ jlr data migration/david/a'')])"
  by code_simp

lemma paged_listing:
  "files_list_folder paged_dbx [] ''/$ jlr data migration/david/a'' False = Inr memo_page \<and>
   has_more memo_page \<and>
   files_list_folder_continue paged_dbx [] (cursor memo_page) = Inr contract_page \<and>
   entries contract_page =
     [FileMetadata ''contract.pdf'' ''/$ jlr data migration/david/a/contract.pdf''] \<and>
   \<not> is_target_file ''contract.pdf''"
  by code_simp

text \<open>
  C2 (the code at the failing input). The listing of the folder \<^verbatim>\<open>a\<close> answers with a
  first page that holds only a memo file and says \<^verbatim>\<open>has_more\<close>; its continuation
  holds \<^verbatim>\<open>contract.pdf\<close>, which is no target. \<^verbatim>\<open>should_delete\<close> reads the first page
  only, so the live clean-up deletes the folder, whatever the order in which the set
  of candidates is iterated.
\<close>

theorem reclaim_trusts_first_page:
  "files_list_folder paged_dbx [] ''/$ jlr data migration/david/a'' False = Inr memo_page \<and>
   has_more memo_page \<and>
   files_list_folder_continue paged_dbx [] (cursor memo_page) = Inr contract_page \<and>
   entries contract_page =
     [FileMetadata ''contract.pdf'' ''/$ jlr data migration/david/a/contract.pdf''] \<and>
   \<not> is_target_file ''contract.pdf'' \<and>
   clean_empty_folders paged_dbx False rank
       [''/$ jlr data migration/david/a/memo style.pdf''] [] =
     Some (Inr (),
       [Called (ListFolder ''/$ jlr data migration/david/a'' False) None,
        Called (DeleteV2 ''/$ jlr data migration/david/a'') None,
        Log (DeletedFolder ''/$ jlr data migration/david/a'')])"
proof -
  have "deepest_first (set_iteration rank [''/$ jlr data migration/david/a'']) =
          [''/$ jlr data migration/david/a'']"
    by (simp add: deepest_first_def set_iteration_def)
  then have "clean_empty_folders paged_dbx False rank
       [''/$ jlr data migration/david/a/memo style.pdf''] [] =
     Some (Inr (),
       [Called (ListFolder ''/$ jlr data migration/david/a'' False) None,
        Called (DeleteV2 ''/$ jlr data migration/david/a'') None,
        Log (DeletedFolder ''/$ jlr data migration/david/a'')])"
    unfolding clean_empty_folders_def sole_candidate by (simp only: option.case sole_candidate_run)
  with paged_listing show ?thesis by (simp only: simp_thms)
qed

text \<open>
  What the check does guarantee: a pass of the loop body deletes a folder only in a
  live run, only the folder it is processing, and only after a listing of it whose
  answer, that one page, holds no file that is not a target.
\<close>

lemma deletion_follows_passed_check:
  assumes "snd (try_folder dbx dry_run f h) = h @ new" and "deletes g new"
  shows "g = f \<and> \<not> dry_run \<and>
         (\<exists>response. files_list_folder dbx h f False = Inr response \<and>
            list_all (\<lambda>entry. is_target_file (name entry)) (filter is_file (entries response)))"
proof (cases "files_list_folder dbx h f False")
  case (Inl e)
  with assms show ?thesis
    by (auto simp: try_folder_def should_delete_def split: if_splits bool.splits)
next
  case (Inr response)
  with assms show ?thesis
    by (cases "files_delete_v2 dbx (h @ [Called (ListFolder f False) None]) f")
       (auto simp: try_folder_def should_delete_def split: if_splits bool.splits)
qed

lemma archive_candidates:
  "folders_to_check [''/$ jlr data migration/david/archive/old/memo style.pdf''] [] =
     Some [''/$ jlr data migration/david/archive/old'', ''/$ jlr data migration/david/archive'']"
  by code_simp

lemma archive_deepest_first:
  "deepest_first [''/$ jlr data migration/david/archive/old'',
                  ''/$ jlr data migration/david/archive''] =
     [''/$ jlr data migration/david/archive/old'', ''/$ jlr data migration/david/archive''] \<and>
   deepest_first [''/$ jlr data migration/david/archive'',
                  ''/$ jlr data migration/david/archive/old''] =
     [''/$ jlr data migration/david/archive/old'', ''/$ jlr data migration/david/archive'']"
  by code_simp

lemma archive_candidates_run:
  "process_folders paged_dbx False
     [''/$ jlr data migration/david/archive/old'', ''/$ jlr data migration/david/archive''] [] =
     (Inr (),
       [Called (ListFolder ''/$ jlr data migration/david/archive/old'' False) None,
        Called (DeleteV2 ''/$ jlr data migration/david/archive/old'') None,
        Log (DeletedFolder ''/$ jlr data migration/david/archive/old''),
        Called (ListFolder ''/$ jlr data migration/david/archive'' False) None,
        Called (DeleteV2 ''/$ jlr data migration/david/archive'') None,
        Log (DeletedFolder ''/$ jlr data migration/david/archive'')])"
  by code_simp

lemma archive_excluded:
  "list_ex (\<lambda>excl. startswith ''/$ jlr data migration/david/archive/old'' (lower excl))
     EXCLUDE_FOLDERS \<and>
   list_ex (\<lambda>excl. startswith ''/$ jlr data migration/david/archive'' (lower excl))
     EXCLUDE_FOLDERS"
  by code_simp

text \<open>
  C4 (the code at the failing input). Both candidate folders of a target path inside
  \<^verbatim>\<open>.../david/archive/old\<close> start with the lower-cased excluded prefix
  \<^verbatim>\<open>/$ JLR DATA MIGRATION/David/Archive\<close>; the clean-up compares them with the prefixes
  as configured, in mixed case, so neither is skipped: both are listed and deleted,
  the deeper one first, whatever the order in which the set of candidates is
  iterated.
\<close>

theorem reclaim_ignores_excluded_prefix:
  "list_ex (\<lambda>excl. startswith ''/$ jlr data migration/david/archive/old'' (lower excl))
     EXCLUDE_FOLDERS \<and>
   list_ex (\<lambda>excl. startswith ''/$ jlr data migration/david/archive'' (lower excl))
     EXCLUDE_FOLDERS \<and>
   clean_empty_folders paged_dbx False rank
       [''/$ jlr data migration/david/archive/old/memo style.pdf''] [] =
     Some (Inr (),
       [Called (ListFolder ''/$ jlr data migration/david/archive/old'' False) None,
        Called (DeleteV2 ''/$ jlr data migration/david/archive/old'') None,
        Log (DeletedFolder ''/$ jlr data migration/david/archive/old''),
        Called (ListFolder ''/$ jlr data migration/david/archive'' False) None,
        Called (DeleteV2 ''/$ jlr data migration/david/archive'') None,
        Log (DeletedFolder ''/$ jlr data migration/david/archive'')])"
proof -
  let ?old = "''/$ jlr data migration/david/archive/old''"
  let ?archive = "''/$ jlr data migration/david/archive''"
  have "set_iteration rank [?old, ?archive] = [?old, ?archive] \<or>
        set_iteration rank [?old, ?archive] = [?archive, ?old]"
    by (simp add: set_iteration_def)
  with archive_deepest_first
  have "deepest_first (set_iteration rank [?old, ?archive]) = [?old, ?archive]"
    by presburger
  then have "clean_empty_folders paged_dbx False rank
       [''/$ jlr data migration/david/archive/old/memo style.pdf''] [] =
     Some (Inr (),
       [Called (ListFolder ''/$ jlr data migration/david/archive/old'' False) None,
        Called (DeleteV2 ''/$ jlr data migration/david/archive/old'') None,
        Log (DeletedFolder ''/$ jlr data migration/david/archive/old''),
        Called (ListFolder ''/$ jlr data migration/david/archive'' False) None,
        Called (DeleteV2 ''/$ jlr data migration/david/archive'') None,
        Log (DeletedFolder ''/$ jlr data migration/david/archive'')])"
    unfolding clean_empty_folders_def archive_candidates
    by (simp only: option.case archive_candidates_run)
  with archive_excluded show ?thesis by (simp only: simp_thms)
qed





declare folder_loop.simps [simp del]
declare ancestors_loop.simps [simp del]
declare main_loop.simps [simp del]











section \<open>Properties of the dry run\<close>

lemma executor_map_dry:
  "executor_map (delete_batch dbx True) started False i bs h =
     (map (\<lambda>b. Inr None) bs, h @ concat (map dry_batch_events bs))"
  by (induction bs arbitrary: i h) (simp_all add: delete_batch_def dry_batch_events_def Let_def)

lemma collect_dry: "collect (map (\<lambda>b. Inr None) bs) = Inr (map (\<lambda>b. None) bs)"
  by (induction bs) simp_all

lemma filter_none_dry: "filter_none (map (\<lambda>b. None) bs) = []"
  by (induction bs) simp_all

lemma turbo_delete_files_dry:
  "turbo_delete_files dbx True started paths h =
     (Inr (), h @ concat (map dry_batch_events (batches_of paths)))"
  by (simp add: turbo_delete_files_def executor_map_dry collect_dry filter_none_dry)

lemma quietly_refl: "quietly h h"
  by (simp add: quietly_def)

lemma quietly_trans: "quietly h h1 \<Longrightarrow> quietly h1 h2 \<Longrightarrow> quietly h h2"
  by (auto simp: quietly_def)

lemma quietly_snoc: "quietly h h1 \<Longrightarrow> list_all quiet evs \<Longrightarrow> quietly h (h1 @ evs)"
  by (auto simp: quietly_def)

lemma retry_loop_quiet:
  assumes "\<And>x. quiet (Called (fst func) x)"
  shows "quietly h (snd (retry_loop func attempts cur lst h))"
proof (induction attempts arbitrary: cur lst h)
  case Nil
  show ?case by (simp add: quietly_def quiet_def)
next
  case (Cons a attempts)
  obtain c op where f: "func = (c, op)" by (cases func)
  have q: "\<And>x. quiet (Called c x)" using assms f by simp
  show ?case
  proof (cases "op h")
    case (Inr v)
    then show ?thesis by (simp add: f quietly_def q)
  next
    case (Inl e)
    let ?h1 = "h @ [Called c (Some e)]"
    have 1: "quietly h ?h1" by (simp add: quietly_def q)
    show ?thesis
    proof (cases "transient e")
      case False
      with Inl 1 show ?thesis by (simp add: f)
    next
      case True
      show ?thesis
      proof (cases "a < MAX_RETRIES")
        case True
        let ?h2 = "?h1 @ [Log (TimeoutRetry (a + 1) (cur * BACKOFF_FACTOR)),
                         Sleep (cur * BACKOFF_FACTOR)]"
        have 2: "quietly h ?h2" by (rule quietly_snoc[OF 1]) (simp add: quiet_def)
        have "snd (retry_loop func (a # attempts) cur lst h) =
                snd (retry_loop func attempts (cur * BACKOFF_FACTOR) (Some e) ?h2)"
          using Inl \<open>transient e\<close> True by (simp add: f Let_def)
        with quietly_trans[OF 2 Cons.IH[of ?h2]] show ?thesis by simp
      next
        case False
        have "snd (retry_loop func (a # attempts) cur lst h) =
                snd (retry_loop func attempts cur (Some e) ?h1)"
          using Inl \<open>transient e\<close> False by (simp add: f)
        with quietly_trans[OF 1 Cons.IH[of ?h1]] show ?thesis by simp
      qed
    qed
  qed
qed

lemma page_request_quiet: "quiet (Called (fst (page_request dbx c)) x)"
  by (cases c) (simp_all add: quiet_def)

lemma page_fetch_quiet: "quietly h (snd (robust_api_call (page_request dbx c) h))"
  unfolding robust_api_call_def by (rule retry_loop_quiet) (rule page_request_quiet)

lemma process_entries_quiet:
  "quietly h (snd (snd (process_entries es (res, n, h))))"
proof (induction es arbitrary: res n h)
  case Nil
  show ?case by (simp add: quietly_refl)
next
  case (Cons entry es)
  obtain res1 n1 h1 where p: "process_entry entry (res, n, h) = (res1, n1, h1)"
    by (cases "process_entry entry (res, n, h)")
  then have "h1 = h \<or> h1 = h @ [Log (Scanned (n + 1))]"
    by (auto simp: process_entry_def Let_def split: if_splits)
  then have "quietly h h1" by (auto simp: quietly_def quiet_def)
  from quietly_trans[OF this Cons.IH[of h1 res1 n1]] p show ?case by simp
qed

lemma scan_loop_quiet: "quietly h (snd (snd (scan_loop dbx fuel s h)))"
proof (induction fuel arbitrary: s h)
  case 0
  show ?case by (simp add: quietly_refl)
next
  case (Suc fuel)
  obtain r h1 where f: "robust_api_call (page_request dbx (st_cursor s)) h = (r, h1)"
    by (cases "robust_api_call (page_request dbx (st_cursor s)) h")
  from page_fetch_quiet[of h dbx "st_cursor s"] f have 1: "quietly h h1" by simp
  show ?case
  proof (cases r)
    case (Inl e)
    show ?thesis
    proof (cases "scan_retryable e \<and> retry_count s < SCAN_MAX_RETRIES")
      case False
      with f Inl 1 show ?thesis by auto
    next
      case True
      let ?h2 = "h1 @ [Log (ScanRetry (retry_count s + 1) (API_DELAY * 2 ^ (retry_count s + 1))),
                      Sleep (API_DELAY * 2 ^ (retry_count s + 1))]"
      have 2: "quietly h ?h2" by (rule quietly_snoc[OF 1]) (simp add: quiet_def)
      have "snd (snd (scan_loop dbx (Suc fuel) s h)) =
              snd (snd (scan_loop dbx fuel (s\<lparr>retry_count := retry_count s + 1\<rparr>) ?h2))"
        using f Inl True by (simp add: Let_def del: power_Suc)
      with quietly_trans[OF 2 Suc.IH[of ?h2]] show ?thesis by simp
    qed
  next
    case (Inr response)
    obtain res n h2 where
      p: "process_entries (entries response) (st_results s, processed_entries s, h1) = (res, n, h2)"
      by (cases "process_entries (entries response) (st_results s, processed_entries s, h1)")
    from process_entries_quiet[of h1 "entries response" "st_results s" "processed_entries s"] p
    have "quietly h1 h2" by simp
    with 1 have 2: "quietly h h2" by (rule quietly_trans)
    show ?thesis
    proof (cases "has_more response")
      case False
      with f Inr p 2 show ?thesis by (simp add: Let_def)
    next
      case True
      let ?h3 = "h2 @ [Sleep API_DELAY]"
      have 3: "quietly h ?h3" by (rule quietly_snoc[OF 2]) (simp add: quiet_def)
      have "snd (snd (scan_loop dbx (Suc fuel) s h)) =
              snd (snd (scan_loop dbx fuel
                (s\<lparr>st_results := res, processed_entries := n,
                   st_cursor := Some (cursor response), retry_count := 0\<rparr>) ?h3))"
        using f Inr p True by (simp add: Let_def)
      with quietly_trans[OF 3 Suc.IH[of ?h3]] show ?thesis by simp
    qed
  qed
qed

lemma scan_target_folder_quiet: "quietly h (snd (scan_target_folder dbx fuel h))"
proof -
  obtain r s h1 where l: "scan_loop dbx fuel scan_init h = (r, s, h1)"
    by (cases "scan_loop dbx fuel scan_init h")
  from scan_loop_quiet[of h dbx fuel scan_init] l have 1: "quietly h h1" by simp
  have "quietly h1 (snd (scan_finish (r, s, h1)))"
    by (cases r) (auto simp: scan_finish_def Let_def quietly_def quiet_def)
  with 1 show ?thesis unfolding scan_target_folder_def l by (rule quietly_trans)
qed

lemma turbo_dry_quiet: "quietly h (snd (turbo_delete_files dbx True started paths h))"
proof -
  have "list_all quiet (concat (map dry_batch_events bs))" for bs
    by (induction bs) (simp_all add: dry_batch_events_def quiet_def)
  then show ?thesis by (simp add: turbo_delete_files_dry quietly_def)
qed

lemma main_try_dry_quiet: "quietly h (snd (snd (main_try dbx True fuel pool rank inputs h)))"
proof -
  obtain r h1 where s: "scan_target_folder dbx fuel h = (r, h1)"
    by (cases "scan_target_folder dbx fuel h")
  from scan_target_folder_quiet[of h dbx fuel] s have 1: "quietly h h1" by simp
  show ?thesis
  proof (cases r)
    case None
    with s 1 show ?thesis by (simp add: main_try_def)
  next
    case (Some res)
    show ?thesis
    proof (cases res)
      case (Inl e)
      with s Some 1 show ?thesis by (simp add: main_try_def)
    next
      case (Inr results)
      show ?thesis
      proof (cases "target_files results = []")
        case True
        with s Some Inr 1 show ?thesis by (simp add: main_try_def)
      next
        case False
        obtain d h2 where t: "turbo_delete_files dbx True (pool h1) (target_files results) h1 = (d, h2)"
          by (cases "turbo_delete_files dbx True (pool h1) (target_files results) h1")
        from turbo_dry_quiet[of h1 dbx "pool h1" "target_files results"] t have "quietly h1 h2" by simp
        with 1 have 2: "quietly h h2" by (rule quietly_trans)
        from t have "d = Inr ()" by (simp add: turbo_delete_files_dry)
        with s Some Inr False t 2 show ?thesis
          by (simp add: main_try_def cancelled_def wants_cleanup_def)
      qed
    qed
  qed
qed

lemma main_loop_dry_quiet:
  "quietly h (snd (main_loop dbx True fuel pool rank retry_main inputs h))"
proof (induction "3 - retry_main" arbitrary: retry_main inputs h)
  case 0
  then show ?case by (subst main_loop.simps) (simp add: quietly_refl)
next
  case (Suc n)
  then have lt: "retry_main < 3" and n: "n = 3 - (retry_main + 1)" by simp_all
  obtain r inputs1 h1 where t: "main_try dbx True fuel pool rank inputs h = (r, inputs1, h1)"
    by (cases "main_try dbx True fuel pool rank inputs h")
  from main_try_dry_quiet[of h dbx fuel pool rank inputs] t have 1: "quietly h h1" by simp
  have fin: "quietly h (finally_clause h')" if "quietly h h'" for h'
    unfolding finally_clause_def by (rule quietly_snoc[OF that]) (simp add: quiet_def)
  show ?case
  proof (cases r)
    case None
    with t lt 1 show ?thesis by (subst main_loop.simps) simp
  next
    case (Some c)
    show ?thesis
    proof (cases c)
      case (Inr v)
      with t lt Some fin[OF 1] show ?thesis by (subst main_loop.simps) simp
    next
      case (Inl e)
      show ?thesis
      proof (cases "exn_class_of e = ReadTimeout")
        case False
        have "quietly h (h1 @ [Log (FatalError e)])"
          by (rule quietly_snoc[OF 1]) (simp add: quiet_def)
        from fin[OF this] t lt Some Inl False show ?thesis
          by (subst main_loop.simps) simp
      next
        case True
        let ?h2 = "finally_clause (h1 @ [Sleep (10 * of_nat (retry_main + 1))])"
        have "quietly h (h1 @ [Sleep (10 * of_nat (retry_main + 1))])"
          by (rule quietly_snoc[OF 1]) (simp add: quiet_def)
        from fin[OF this] have 2: "quietly h ?h2" .
        have "main_loop dbx True fuel pool rank retry_main inputs h =
                main_loop dbx True fuel pool rank (retry_main + 1) inputs1 ?h2"
          using t lt Some Inl True by (subst main_loop.simps) simp
        with quietly_trans[OF 2 Suc.hyps(1)[OF n, of ?h2 inputs1]] show ?thesis by simp
      qed
    qed
  qed
qed

lemma main_dry_quiet: "list_all quiet (snd (main dbx True fuel pool rank inputs))"
proof -
  from main_loop_dry_quiet[of "[Log Started]" dbx fuel pool rank 0 inputs]
  obtain new where "snd (main dbx True fuel pool rank inputs) = [Log Started] @ new" "list_all quiet new"
    by (auto simp: main_def quietly_def)
  then show ?thesis by (simp add: quiet_def)
qed

text \<open>
  C6 (the code at the failing input). A dry run of \<^verbatim>\<open>main\<close> over a root whose folder
  \<^verbatim>\<open>a\<close> holds a memo file ends after the batch has been logged: no candidate folder is
  evaluated and no intended folder deletion is logged, because \<^verbatim>\<open>main\<close> enters the
  folder clean-up only under \<^verbatim>\<open>not DRY_RUN and input(...)\<close>. Called in dry-run mode on
  the targets of that run, \<^verbatim>\<open>clean_empty_folders\<close> lists the folder and logs the
  deletion it would make; \<^verbatim>\<open>main\<close> never reaches that branch.
\<close>

theorem dry_run_skips_reclaim:
  "main paged_dbx True 2 pool rank [] =
     (True,
      [Log Started, Called (ListFolder TARGET_FOLDER True) None, Sleep 1,
       Called (ListFolderContinue ''c1'') None, Log (ScanCompleted 2),
       Sleep 1, Log (ProcessedBatch 1), Called Close None, Log Completed]) \<and>
   clean_empty_folders paged_dbx True rank [''/$ jlr data migration/david/a/memo style.pdf''] [] =
     Some (Inr (),
       [Called (ListFolder ''/$ jlr data migration/david/a'' False) None,
        Log (WouldDelete ''/$ jlr data migration/david/a'')])"
  by code_simp

end
